theory Spec2Isabelle
  imports Main "HOL-Library.AList"
begin

section \<open>Errors\<close>

text \<open>
  Every \<^verbatim>\<open>throw new Error(...)\<close> of the sources is one constructor, named after the
  error taxonomy of the specification:
  \<^item> \<open>AlreadyLocked\<close>: "Instance ... is already locked" (\<^verbatim>\<open>ManagedInstance.lock\<close>);
  \<^item> \<open>Busy\<close>: "Database ... busy - try again" (the timer of \<^verbatim>\<open>waitForFree\<close>);
  \<^item> \<open>CapacityExceeded\<close>: "Maximum instances limit reached ..." (\<^verbatim>\<open>getOrCreate\<close>);
  \<^item> \<open>NotProvisioned\<close>: "Database ... does not exist (auto-provision disabled)";
  \<^item> \<open>EngineBootFailure\<close>: the rejection of the engine's \<^verbatim>\<open>waitReady\<close>;
  \<^item> \<open>InvalidPath\<close>: the \<^verbatim>\<open>TypeError\<close> of \<^verbatim>\<open>fs.mkdirSync(null)\<close>;
  \<^item> \<open>OutOfRange\<close>: "Preferred port ... outside allowed range ..." (\<^verbatim>\<open>allocatePort\<close>);
  \<^item> \<open>RangeExhausted\<close>: "No available ports in range ...".
\<close>

datatype error =
    AlreadyLocked
  | Busy
  | CapacityExceeded
  | NotProvisioned
  | EngineBootFailure
  | InvalidPath
  | OutOfRange
  | RangeExhausted

section \<open>The instance registry (registry.js)\<close>

text \<open>
  A registry entry is the object \<^verbatim>\<open>{port, pid, started, version}\<close>. The object
  \<^verbatim>\<open>registry.instances\<close> is an association list from data directory to entry, in the
  insertion order that \<^verbatim>\<open>Object.entries\<close> enumerates; the keys of a JavaScript object are
  pairwise distinct, which is the hypothesis \<open>distinct (map fst r)\<close> wherever it matters.
\<close>

record registry_entry =
  port :: int
  pid :: int
  started :: string
  version :: string

type_synonym registry = "(string \<times> registry_entry) list"

text \<open>
  The registry file on disk: absent, present but not parsable as JSON, or holding a registry.
\<close>

datatype registry_file = Missing | Unparsable | Stored registry

definition loadRegistry :: "registry_file \<Rightarrow> registry" where
  "loadRegistry file = (case file of Missing \<Rightarrow> [] | Unparsable \<Rightarrow> [] | Stored r \<Rightarrow> r)"

definition saveRegistry :: "registry \<Rightarrow> registry_file" where
  "saveRegistry r = Stored r"

definition registerInstance :: "registry_file \<Rightarrow> string \<Rightarrow> int \<Rightarrow> int \<Rightarrow> string \<Rightarrow> registry_file" where
  "registerInstance file dir p q iso_now =
     (let r = loadRegistry file
      in saveRegistry
           (AList.update dir \<lparr>port = p, pid = q, started = iso_now, version = ''17.5''\<rparr> r))"

definition unregisterInstance :: "registry_file \<Rightarrow> string \<Rightarrow> registry_file" where
  "unregisterInstance file dir = (let r = loadRegistry file in saveRegistry (AList.delete dir r))"

definition findInstanceByDataDir :: "registry_file \<Rightarrow> string \<Rightarrow> registry_entry option" where
  "findInstanceByDataDir file dir = map_of (loadRegistry file) dir"

text \<open>
  \<^verbatim>\<open>isProcessRunning(pid)\<close> is \<^verbatim>\<open>process.kill(pid, 0)\<close> inside \<^verbatim>\<open>try\<close>/\<^verbatim>\<open>catch\<close>. The
  operating system is the parameter \<open>alive\<close>: \<open>alive q\<close> holds when signal 0 to \<open>q\<close> is delivered
  without an exception, and is the same for the whole call that receives it.
\<close>

definition isProcessRunning :: "(int \<Rightarrow> bool) \<Rightarrow> int \<Rightarrow> bool" where
  "isProcessRunning alive q = alive q"

text \<open>
  \<^verbatim>\<open>cleanupStaleInstances\<close>: the loop runs over the snapshot \<^verbatim>\<open>Object.entries(...)\<close> taken
  before it starts and deletes from the live object; the file is written only when something was
  removed. The result is the count and the file afterwards.
\<close>

definition cleanup_step ::
  "(int \<Rightarrow> bool) \<Rightarrow> string \<times> registry_entry \<Rightarrow> registry \<times> nat \<Rightarrow> registry \<times> nat" where
  "cleanup_step alive kv acc =
     (if \<not> isProcessRunning alive (pid (snd kv))
      then (AList.delete (fst kv) (fst acc), snd acc + 1)
      else acc)"

definition cleanupStaleInstances :: "(int \<Rightarrow> bool) \<Rightarrow> registry_file \<Rightarrow> nat \<times> registry_file" where
  "cleanupStaleInstances alive file =
     (let r = loadRegistry file;
          res = fold (cleanup_step alive) r (r, 0);
          cleaned = snd res
      in (cleaned, if cleaned > 0 then saveRegistry (fst res) else file))"

section \<open>The port allocator (ports.js)\<close>

definition PORT_RANGE_START :: int where
  "PORT_RANGE_START = 12000"

definition PORT_RANGE_END :: int where
  "PORT_RANGE_END = 12999"

text \<open>
  \<^verbatim>\<open>isPortInRegistry\<close> reloads the registry and looks for any entry, of a live or a dead
  process, with the port.
\<close>

definition isPortInRegistry :: "registry_file \<Rightarrow> int \<Rightarrow> bool" where
  "isPortInRegistry file p =
     (let r = loadRegistry file in list_ex (\<lambda>instance. port instance = p) (map snd r))"

text \<open>
  \<^verbatim>\<open>isPortFree(port)\<close> binds and closes a TCP server on 127.0.0.1; it is the parameter
  \<open>probe\<close>. The loop \<^verbatim>\<open>for (port = START; port <= END; port++)\<close> of \<^verbatim>\<open>allocatePort\<close> is
  \<open>scanPorts\<close>, started at \<open>PORT_RANGE_START\<close>.
\<close>

function scanPorts :: "registry_file \<Rightarrow> (int \<Rightarrow> bool) \<Rightarrow> int \<Rightarrow> error + int" where
  "scanPorts file probe p =
     (if p \<le> PORT_RANGE_END
      then (if probe p \<and> \<not> isPortInRegistry file p then Inr p
            else scanPorts file probe (p + 1))
      else Inl RangeExhausted)"
  by pat_completeness auto
termination
  by (relation "measure (\<lambda>(file, probe, p). nat (PORT_RANGE_END + 1 - p))") auto

declare scanPorts.simps [simp del]

definition allocatePort ::
  "registry_file \<Rightarrow> (int \<Rightarrow> bool) \<Rightarrow> (int \<Rightarrow> bool) \<Rightarrow> string \<Rightarrow> int option \<Rightarrow> error + int" where
  "allocatePort file alive probe dir preferredPort =
     (let r = loadRegistry file;
          existing = map_of r dir
      in case (case existing of
                 None \<Rightarrow> None
               | Some e \<Rightarrow> if alive (pid e) then Some (port e) else None) of
           Some running \<Rightarrow> Inr running
         | None \<Rightarrow>
             (case preferredPort of
                None \<Rightarrow> scanPorts file probe PORT_RANGE_START
              | Some pp \<Rightarrow>
                  if pp < PORT_RANGE_START \<or> pp > PORT_RANGE_END then Inl OutOfRange
                  else if probe pp \<and> \<not> isPortInRegistry file pp then Inr pp
                  else scanPorts file probe PORT_RANGE_START))"

section \<open>The JavaScript runtime around one managed instance\<close>

text \<open>
  JavaScript runs one synchronous block at a time, to completion. Everything the blocks of
  pool.js read or change outside the instance object is the record \<open>runtime\<close>:
  \<^item> \<open>now\<close>: the value of \<^verbatim>\<open>Date.now()\<close>;
  \<^item> \<open>dirs\<close>: the directories that exist; \<open>engines\<close>: the engines constructed by
    \<^verbatim>\<open>new PGlite(...)\<close>, a handle being the index of its engine;
  \<^item> \<open>promises\<close>: the state of the promise that \<^verbatim>\<open>waitForFree\<close> returns (an
    \<^verbatim>\<open>async\<close> function's promise adopts the state of the \<^verbatim>\<open>new Promise\<close> it returns, so
    the two are one promise here), numbered in the order of creation; a promise is settled once;
  \<^item> \<open>timers\<close>: the deadline of the \<^verbatim>\<open>setTimeout\<close> armed for a promise, \<open>None\<close> once
    cleared or fired;
  \<^item> \<open>awaiting\<close>: the socket of the \<^verbatim>\<open>acquire\<close> call suspended at
    \<^verbatim>\<open>await instance.waitForFree(timeout)\<close> on a promise;
  \<^item> \<open>microtasks\<close>: the settled promises whose suspended \<^verbatim>\<open>acquire\<close> has not resumed yet,
    first in first out;
  \<^item> \<open>once_close\<close>, \<open>once_error\<close>: how many \<^verbatim>\<open>once('close', unlock)\<close> and
    \<^verbatim>\<open>once('error', unlock)\<close> listeners of this instance a socket carries;
  \<^item> \<open>trace\<close>: what the instance emitted and what each \<^verbatim>\<open>acquire\<close> call returned or threw,
    in order.
  Logging changes none of this and is left out. The listeners of the events that the instance
  emits are taken to observe only: \<open>emit\<close> appends to the trace and runs no code.
\<close>

type_synonym socket = nat

type_synonym handle = nat

datatype engine_status = Booting | Ready | BootFailed | Closed

datatype jsarg = This | Err error

datatype promise_state = Pending | Fulfilled | Rejected jsarg

datatype inst_event = Ev_initialized | Ev_locked | Ev_unlocked | Ev_closed

datatype obs =
    Emitted inst_event string
  | Queued nat socket
  | Granted "nat option" socket
  | Refused "nat option" socket jsarg

record runtime =
  now :: nat
  dirs :: "string list"
  engines :: "engine_status list"
  promises :: "nat \<Rightarrow> promise_state"
  timers :: "nat \<Rightarrow> nat option"
  awaiting :: "nat \<Rightarrow> socket option"
  microtasks :: "nat list"
  once_close :: "socket \<Rightarrow> nat"
  once_error :: "socket \<Rightarrow> nat"
  fresh :: nat
  trace :: "obs list"

definition emit :: "inst_event \<Rightarrow> string \<Rightarrow> runtime \<Rightarrow> runtime" where
  "emit ev name r = r\<lparr>trace := trace r @ [Emitted ev name]\<rparr>"

text \<open>
  Settling a promise: nothing happens unless it is pending; the suspended \<^verbatim>\<open>acquire\<close>, if
  there is one, is queued as a microtask. Awaiting a promise that is already settled queues the
  continuation at once.
\<close>

definition settle :: "nat \<Rightarrow> promise_state \<Rightarrow> runtime \<Rightarrow> runtime" where
  "settle n st r =
     (if promises r n = Pending
      then r\<lparr>promises := (promises r)(n := st),
             microtasks := (if awaiting r n = None then microtasks r else microtasks r @ [n])\<rparr>
      else r)"

definition await_promise :: "nat \<Rightarrow> socket \<Rightarrow> runtime \<Rightarrow> runtime" where
  "await_promise n sock r =
     r\<lparr>awaiting := (awaiting r)(n := Some sock),
       microtasks := (if promises r n = Pending then microtasks r else microtasks r @ [n])\<rparr>"

text \<open>
  The function objects that \<^verbatim>\<open>waitForFree\<close> handles for promise \<open>n\<close>: the executor's
  \<^verbatim>\<open>resolve\<close> and \<^verbatim>\<open>reject\<close>, and the arrow function
  \<^verbatim>\<open>(instance) => { clearTimeout(timer); resolve(instance); }\<close> it pushes onto the queue.
  They are three different objects, so \<^verbatim>\<open>===\<close> between them is equality of constructors.
\<close>

datatype fn = PromiseResolve nat | PromiseReject nat | ResolveWrapper nat

definition clearTimeout :: "nat \<Rightarrow> runtime \<Rightarrow> runtime" where
  "clearTimeout n r = r\<lparr>timers := (timers r)(n := None)\<rparr>"

definition invoke :: "fn \<Rightarrow> jsarg \<Rightarrow> runtime \<Rightarrow> runtime" where
  "invoke f a r =
     (case f of
        PromiseResolve n \<Rightarrow> settle n Fulfilled r
      | PromiseReject n \<Rightarrow> settle n (Rejected a) r
      | ResolveWrapper n \<Rightarrow> settle n Fulfilled (clearTimeout n r))"

section \<open>ManagedInstance (pool.js)\<close>

record queue_item =
  resolve :: fn
  reject :: fn

record managed_instance =
  dbName :: string
  dataDir :: "string option"
  memoryMode :: bool
  db :: "handle option"
  locked :: bool
  activeSocket :: "socket option"
  queue :: "queue_item list"
  createdAt :: nat
  lastAccess :: nat

definition ManagedInstance :: "string \<Rightarrow> string option \<Rightarrow> bool \<Rightarrow> runtime \<Rightarrow> managed_instance" where
  "ManagedInstance name dir mem r =
     \<lparr>dbName = name, dataDir = dir, memoryMode = mem, db = None, locked = False,
      activeSocket = None, queue = [], createdAt = now r, lastAccess = now r\<rparr>"

subsection \<open>initialize\<close>

text \<open>
  \<^verbatim>\<open>initialize\<close> is two synchronous blocks around \<^verbatim>\<open>await this.db.waitReady\<close>.
  \<open>initialize_begin\<close> runs up to the \<^verbatim>\<open>await\<close>: it returns the handle at once when
  \<^verbatim>\<open>this.db\<close> is set, and otherwise creates the directory (durable mode), constructs the engine,
  assigns \<^verbatim>\<open>this.db\<close> and suspends. \<open>waitReady_settles\<close> is the engine finishing its boot
  (\<open>True\<close>) or failing it. \<open>initialize_resume\<close> is the block after the \<^verbatim>\<open>await\<close>: a rejection
  is thrown on to the caller, a fulfilment emits \<^verbatim>\<open>'initialized'\<close> and returns \<^verbatim>\<open>this.db\<close>
  as it is then.
\<close>

datatype init_call = Returned handle | Awaiting handle | Raised error

definition new_PGlite :: "runtime \<Rightarrow> handle \<times> runtime" where
  "new_PGlite r = (length (engines r), r\<lparr>engines := engines r @ [Booting]\<rparr>)"

definition initialize_begin :: "managed_instance \<Rightarrow> runtime \<Rightarrow> init_call \<times> managed_instance \<times> runtime" where
  "initialize_begin i r =
     (case db i of
        Some h \<Rightarrow> (Returned h, i, r)
      | None \<Rightarrow>
          if memoryMode i
          then (let (h, r1) = new_PGlite r in (Awaiting h, i\<lparr>db := Some h\<rparr>, r1))
          else (case dataDir i of
                  None \<Rightarrow> (Raised InvalidPath, i, r)
                | Some d \<Rightarrow>
                    (let r0 = (if d \<in> set (dirs r) then r else r\<lparr>dirs := dirs r @ [d]\<rparr>);
                         (h, r1) = new_PGlite r0
                     in (Awaiting h, i\<lparr>db := Some h\<rparr>, r1))))"

definition waitReady_settles :: "handle \<Rightarrow> bool \<Rightarrow> runtime \<Rightarrow> runtime" where
  "waitReady_settles h ok r = r\<lparr>engines := (engines r)[h := (if ok then Ready else BootFailed)]\<rparr>"

definition initialize_resume ::
  "managed_instance \<Rightarrow> runtime \<Rightarrow> bool \<Rightarrow> (error + handle option) \<times> runtime" where
  "initialize_resume i r ok =
     (if ok then (Inr (db i), emit Ev_initialized (dbName i) r) else (Inl EngineBootFailure, r))"

text \<open>
  One whole call with nothing running in between, as \<^verbatim>\<open>getOrCreate\<close> awaits it; \<open>boot_ok\<close> is
  how the engine's ready signal settles if this call starts a boot.
\<close>

definition initialize ::
  "managed_instance \<Rightarrow> runtime \<Rightarrow> bool \<Rightarrow> (error + handle option) \<times> managed_instance \<times> runtime" where
  "initialize i r boot_ok =
     (case initialize_begin i r of
        (Returned h, i1, r1) \<Rightarrow> (Inr (Some h), i1, r1)
      | (Raised e, i1, r1) \<Rightarrow> (Inl e, i1, r1)
      | (Awaiting h, i1, r1) \<Rightarrow>
          (let (res, r2) = initialize_resume i1 (waitReady_settles h boot_ok r1) boot_ok
           in (res, i1, r2)))"

subsection \<open>lock, unlock, waitForFree, close\<close>

definition lock :: "managed_instance \<Rightarrow> runtime \<Rightarrow> socket \<Rightarrow> error + managed_instance \<times> runtime" where
  "lock i r sock =
     (if locked i then Inl AlreadyLocked
      else Inr (i\<lparr>locked := True, activeSocket := Some sock, lastAccess := now r\<rparr>,
                emit Ev_locked (dbName i)
                  (r\<lparr>once_close := (once_close r)(sock := once_close r sock + 1),
                     once_error := (once_error r)(sock := once_error r sock + 1)\<rparr>)))"

definition unlock :: "managed_instance \<Rightarrow> runtime \<Rightarrow> managed_instance \<times> runtime" where
  "unlock i r =
     (let i1 = i\<lparr>locked := False, activeSocket := None, lastAccess := now r\<rparr>;
          r1 = emit Ev_unlocked (dbName i) r
      in case queue i1 of
           [] \<Rightarrow> (i1, r1)
         | next # rest \<Rightarrow> (i1\<lparr>queue := rest\<rparr>, invoke (resolve next) This r1))"

text \<open>
  \<^verbatim>\<open>waitForFree\<close> is \<^verbatim>\<open>async\<close>: it always returns a promise, here its number. When the
  instance is free the promise is fulfilled already; otherwise it is pending, its timer is armed
  and its entry is pushed at the tail of the queue.
\<close>

definition waitForFree :: "managed_instance \<Rightarrow> runtime \<Rightarrow> nat \<Rightarrow> nat \<times> managed_instance \<times> runtime" where
  "waitForFree i r timeout =
     (let n = fresh r
      in if \<not> locked i
         then (n, i, r\<lparr>fresh := n + 1, promises := (promises r)(n := Fulfilled)\<rparr>)
         else (n,
               i\<lparr>queue := queue i @ [\<lparr>resolve = ResolveWrapper n, reject = PromiseReject n\<rparr>]\<rparr>,
               r\<lparr>fresh := n + 1, promises := (promises r)(n := Pending),
                 timers := (timers r)(n := Some (now r + timeout))\<rparr>))"

text \<open>
  The callback of the timer of promise \<open>n\<close>: \<^verbatim>\<open>findIndex\<close> (\<open>None\<close> is \<^verbatim>\<open>-1\<close>) looks for
  the queue entry whose \<^verbatim>\<open>resolve\<close> field is the executor's \<^verbatim>\<open>resolve\<close>,
  \<^verbatim>\<open>splice(idx, 1)\<close> removes it, and the promise is rejected with the busy error.
\<close>

fun findIndex :: "('a \<Rightarrow> bool) \<Rightarrow> 'a list \<Rightarrow> nat option" where
  "findIndex P [] = None"
| "findIndex P (x # xs) = (if P x then Some 0 else map_option Suc (findIndex P xs))"

definition splice_one :: "nat \<Rightarrow> 'a list \<Rightarrow> 'a list" where
  "splice_one idx xs = take idx xs @ drop (idx + 1) xs"

definition timeout_callback :: "nat \<Rightarrow> managed_instance \<Rightarrow> runtime \<Rightarrow> managed_instance \<times> runtime" where
  "timeout_callback n i r =
     (let idx = findIndex (\<lambda>item. resolve item = PromiseResolve n) (queue i);
          i1 = (case idx of None \<Rightarrow> i | Some k \<Rightarrow> i\<lparr>queue := splice_one k (queue i)\<rparr>)
      in (i1, invoke (PromiseReject n) (Err Busy) r))"

text \<open>
  \<^verbatim>\<open>close\<close>: an error of \<^verbatim>\<open>db.close()\<close> is caught, so the call never throws.
\<close>

definition close :: "managed_instance \<Rightarrow> runtime \<Rightarrow> managed_instance \<times> runtime" where
  "close i r =
     (let r1 = (case db i of None \<Rightarrow> r | Some h \<Rightarrow> r\<lparr>engines := (engines r)[h := Closed]\<rparr>)
      in (i\<lparr>db := None\<rparr>, emit Ev_closed (dbName i) r1))"

subsection \<open>InstancePool.acquire on one instance\<close>

text \<open>
  After \<^verbatim>\<open>await this.getOrCreate(dbName)\<close> has produced the instance, \<^verbatim>\<open>acquire\<close> is the
  block \<open>acquire_enter\<close>: on a locked instance it calls \<^verbatim>\<open>waitForFree\<close> and suspends on the
  promise, otherwise it goes on to \<^verbatim>\<open>instance.lock(socket); return instance\<close>, which is
  \<open>acquire_finish\<close>. \<open>acquire_resume\<close> is the continuation of a suspended call once its
  promise is settled: a rejection is thrown to the caller, a fulfilment goes on to
  \<open>acquire_finish\<close>. The first argument of \<open>acquire_finish\<close> is the promise the call waited
  on, if it waited.
\<close>

definition acquire_finish ::
  "nat option \<Rightarrow> socket \<Rightarrow> managed_instance \<Rightarrow> runtime \<Rightarrow> managed_instance \<times> runtime" where
  "acquire_finish via sock i r =
     (case lock i r sock of
        Inl e \<Rightarrow> (i, r\<lparr>trace := trace r @ [Refused via sock (Err e)]\<rparr>)
      | Inr (i1, r1) \<Rightarrow> (i1, r1\<lparr>trace := trace r1 @ [Granted via sock]\<rparr>))"

definition acquire_enter ::
  "socket \<Rightarrow> nat \<Rightarrow> managed_instance \<Rightarrow> runtime \<Rightarrow> managed_instance \<times> runtime" where
  "acquire_enter sock timeout i r =
     (if locked i
      then (let (n, i1, r1) = waitForFree i r timeout;
                r2 = await_promise n sock r1
            in (i1, r2\<lparr>trace := trace r2 @ [Queued n sock]\<rparr>))
      else acquire_finish None sock i r)"

definition acquire_resume :: "nat \<Rightarrow> managed_instance \<Rightarrow> runtime \<Rightarrow> managed_instance \<times> runtime" where
  "acquire_resume n i r =
     (case awaiting r n of
        None \<Rightarrow> (i, r)
      | Some sock \<Rightarrow>
          (case promises r n of
             Pending \<Rightarrow> (i, r)
           | Fulfilled \<Rightarrow> acquire_finish (Some n) sock i (r\<lparr>awaiting := (awaiting r)(n := None)\<rparr>)
           | Rejected a \<Rightarrow>
               (i, r\<lparr>awaiting := (awaiting r)(n := None),
                      trace := trace r @ [Refused (Some n) sock a]\<rparr>)))"

subsection \<open>Runs of one instance\<close>

text \<open>
  The synchronous blocks that touch one instance, as events: an \<^verbatim>\<open>acquire\<close> call reaching the
  instance, the next microtask, the timer of a promise firing (only when armed and due), a socket
  emitting \<^verbatim>\<open>'close'\<close> or \<^verbatim>\<open>'error'\<close> (each \<^verbatim>\<open>once\<close> listener is removed and called),
  and the clock advancing. A run is any sequence of them; the schedules of the JavaScript event
  loop are among these sequences.
\<close>

datatype sock_event = OnClose | OnError

datatype event =
    Acquire socket nat
  | Microtask
  | TimerFires nat
  | SocketEmits socket sock_event
  | Advance nat

definition unlock_state :: "managed_instance \<times> runtime \<Rightarrow> managed_instance \<times> runtime" where
  "unlock_state s = unlock (fst s) (snd s)"

fun step :: "event \<Rightarrow> managed_instance \<times> runtime \<Rightarrow> managed_instance \<times> runtime" where
  "step (Acquire sock timeout) (i, r) = acquire_enter sock timeout i r"
| "step Microtask (i, r) =
     (case microtasks r of
        [] \<Rightarrow> (i, r)
      | n # rest \<Rightarrow> acquire_resume n i (r\<lparr>microtasks := rest\<rparr>))"
| "step (TimerFires n) (i, r) =
     (case timers r n of
        None \<Rightarrow> (i, r)
      | Some deadline \<Rightarrow>
          if now r < deadline then (i, r)
          else timeout_callback n i (clearTimeout n r))"
| "step (SocketEmits sock OnClose) (i, r) =
     (unlock_state ^^ once_close r sock) (i, r\<lparr>once_close := (once_close r)(sock := 0)\<rparr>)"
| "step (SocketEmits sock OnError) (i, r) =
     (unlock_state ^^ once_error r sock) (i, r\<lparr>once_error := (once_error r)(sock := 0)\<rparr>)"
| "step (Advance d) (i, r) = (i, r\<lparr>now := now r + d\<rparr>)"

definition run :: "event list \<Rightarrow> managed_instance \<times> runtime \<Rightarrow> managed_instance \<times> runtime" where
  "run evs s = fold step evs s"

definition runtime0 :: runtime where
  "runtime0 =
     \<lparr>now = 0, dirs = [], engines = [], promises = (\<lambda>n. Pending), timers = (\<lambda>n. None),
      awaiting = (\<lambda>n. None), microtasks = [], once_close = (\<lambda>s. 0), once_error = (\<lambda>s. 0),
      fresh = 0, trace = []\<rparr>"

section \<open>InstancePool (pool.js)\<close>

text \<open>
  The options object of the constructor, a field being \<open>None\<close> when it is absent or
  \<^verbatim>\<open>undefined\<close>. The fields have the types the pool uses them at: a path, a flag, a count
  (a natural number) and a flag. \<open>a || b\<close> yields \<open>b\<close> exactly when \<open>a\<close> is falsy:
  \<^verbatim>\<open>undefined\<close>, the empty string, \<^verbatim>\<open>false\<close> or \<open>0\<close>.
\<close>

record pool_options =
  opt_baseDir :: "string option"
  opt_memoryMode :: "bool option"
  opt_maxInstances :: "nat option"
  opt_autoProvision :: "bool option"

definition truthy_string :: "string \<Rightarrow> bool" where
  "truthy_string s = (s \<noteq> [])"

definition truthy_bool :: "bool \<Rightarrow> bool" where
  "truthy_bool b = b"

definition truthy_number :: "nat \<Rightarrow> bool" where
  "truthy_number n = (n \<noteq> 0)"

definition js_or :: "('a \<Rightarrow> bool) \<Rightarrow> 'a option \<Rightarrow> 'a \<Rightarrow> 'a" where
  "js_or truthy a b = (case a of None \<Rightarrow> b | Some v \<Rightarrow> if truthy v then v else b)"

text \<open>
  The pool: \<^verbatim>\<open>instances\<close> is the \<^verbatim>\<open>Map\<close> from name to instance in insertion order, its
  \<^verbatim>\<open>size\<close> the length of the list (\<^verbatim>\<open>set\<close> is called for absent names only). The field
  \<^verbatim>\<open>memoryMode\<close> of the pool is \<open>poolMemoryMode\<close>.
\<close>

record instance_pool =
  baseDir :: string
  poolMemoryMode :: bool
  maxInstances :: nat
  autoProvision :: bool
  instances :: "(string \<times> managed_instance) list"

definition InstancePool :: "pool_options \<Rightarrow> instance_pool" where
  "InstancePool options =
     \<lparr>baseDir = js_or truthy_string (opt_baseDir options) ''./data'',
      poolMemoryMode = js_or truthy_bool (opt_memoryMode options) False,
      maxInstances = js_or truthy_number (opt_maxInstances options) 100,
      autoProvision = (opt_autoProvision options \<noteq> Some False),
      instances = []\<rparr>"

text \<open>
  \<^verbatim>\<open>path.join(baseDir, dbName)\<close>, without the normalisation of the joined path.
\<close>

definition path_join :: "string \<Rightarrow> string \<Rightarrow> string" where
  "path_join a b = a @ ''/'' @ b"

text \<open>
  \<^verbatim>\<open>getOrCreate\<close>: the lookup, the two checks, the construction and \<^verbatim>\<open>instances.set\<close> are
  one synchronous block; \<^verbatim>\<open>await instance.initialize()\<close> follows, and the instance object,
  changed in place by it, stays in the map whether or not the boot fails.
\<close>

definition initialize_stored ::
  "instance_pool \<Rightarrow> runtime \<Rightarrow> string \<Rightarrow> managed_instance \<Rightarrow> bool
     \<Rightarrow> (error + managed_instance) \<times> instance_pool \<times> runtime" where
  "initialize_stored p r name inst boot_ok =
     (let (res, inst1, r1) = initialize inst r boot_ok;
          p1 = p\<lparr>instances := AList.update name inst1 (instances p)\<rparr>
      in case res of
           Inl e \<Rightarrow> (Inl e, p1, r1)
         | Inr h \<Rightarrow> (Inr inst1, p1, r1))"

definition getOrCreate ::
  "instance_pool \<Rightarrow> runtime \<Rightarrow> string \<Rightarrow> bool \<Rightarrow> (error + managed_instance) \<times> instance_pool \<times> runtime" where
  "getOrCreate p r name boot_ok =
     (case map_of (instances p) name of
        Some inst \<Rightarrow> initialize_stored p r name inst boot_ok
      | None \<Rightarrow>
          if length (instances p) \<ge> maxInstances p then (Inl CapacityExceeded, p, r)
          else if \<not> autoProvision p then (Inl NotProvisioned, p, r)
          else (let dir = (if poolMemoryMode p then None else Some (path_join (baseDir p) name));
                    inst = ManagedInstance name dir (poolMemoryMode p) r;
                    p1 = p\<lparr>instances := instances p @ [(name, inst)]\<rparr>
                in initialize_stored p1 r name inst boot_ok))"

definition closeInstance :: "instance_pool \<Rightarrow> runtime \<Rightarrow> string \<Rightarrow> instance_pool \<times> runtime" where
  "closeInstance p r name =
     (case map_of (instances p) name of
        None \<Rightarrow> (p, r)
      | Some inst \<Rightarrow>
          (let (inst1, r1) = close inst r
           in (p\<lparr>instances := AList.delete name (instances p)\<rparr>, r1)))"

definition closeAll :: "instance_pool \<Rightarrow> runtime \<Rightarrow> instance_pool \<times> runtime" where
  "closeAll p r =
     (let r1 = fold (\<lambda>kv r0. snd (close (snd kv) r0)) (instances p) r
      in (p\<lparr>instances := []\<rparr>, r1))"

text \<open>
  Any sequence of the pool's operations that change the set of instances; the flag of
  \<open>GetOrCreate\<close> is how the engine's boot ends if the call starts one.
\<close>

datatype pool_op = GetOrCreate string bool | CloseInstance string | CloseAll

fun pool_step :: "pool_op \<Rightarrow> instance_pool \<times> runtime \<Rightarrow> instance_pool \<times> runtime" where
  "pool_step (GetOrCreate name boot_ok) (p, r) = snd (getOrCreate p r name boot_ok)"
| "pool_step (CloseInstance name) (p, r) = closeInstance p r name"
| "pool_step CloseAll (p, r) = closeAll p r"

definition pool_run :: "pool_op list \<Rightarrow> instance_pool \<times> runtime \<Rightarrow> instance_pool \<times> runtime" where
  "pool_run ops s = fold pool_step ops s"

section \<open>Example inputs\<close>

text \<open>A registry of three entries, used to instantiate the theorems below.\<close>

definition ex_registry :: registry where
  "ex_registry =
     [(''/data/a'', \<lparr>port = 12000, pid = 100, started = ''t0'', version = ''17.5''\<rparr>),
      (''/data/b'', \<lparr>port = 12001, pid = 200, started = ''t1'', version = ''17.5''\<rparr>),
      (''/data/c'', \<lparr>port = 12002, pid = 300, started = ''t2'', version = ''17.5''\<rparr>)]"

text \<open>
  Two registry files for the port allocator: one whose only entry, of a dead process, claims port
  12005, and one whose only entry claims it for the data directory that asks again.
\<close>

definition stale_12005 :: registry_file where
  "stale_12005 = Stored [(''/data/old'', \<lparr>port = 12005, pid = 4242, started = ''t0'', version = ''17.5''\<rparr>)]"

definition live_12005 :: registry_file where
  "live_12005 = Stored [(''/data/db'', \<lparr>port = 12005, pid = 4242, started = ''t0'', version = ''17.5''\<rparr>)]"

text \<open>
  \<open>falsy\<close>: the option field is absent or holds a falsy value. \<open>boots\<close>: a call of
  \<^verbatim>\<open>initialize\<close> on the instance starts an engine boot (no handle yet, and a directory to
  create in durable mode). \<open>succeeds\<close>: the call returned rather than threw.
\<close>

definition falsy :: "('a \<Rightarrow> bool) \<Rightarrow> 'a option \<Rightarrow> bool" where
  "falsy truthy a = (case a of None \<Rightarrow> True | Some v \<Rightarrow> \<not> truthy v)"

definition boots :: "managed_instance \<Rightarrow> bool" where
  "boots i = (db i = None \<and> (memoryMode i \<or> dataDir i \<noteq> None))"

definition succeeds :: "(error + 'a) \<times> 'b \<Rightarrow> bool" where
  "succeeds res = (case fst res of Inl e \<Rightarrow> False | Inr v \<Rightarrow> True)"

text \<open>
  An in-memory instance named a, and the pool of the capacity scenario: \<open>maxInstances = 1\<close>,
  everything else by default; \<open>scenario_1\<close> is that pool after \<^verbatim>\<open>getOrCreate("a")\<close>.
\<close>

definition inst_a :: managed_instance where
  "inst_a = ManagedInstance ''a'' None True runtime0"

definition pool_one :: instance_pool where
  "pool_one = InstancePool \<lparr>opt_baseDir = None, opt_memoryMode = None, opt_maxInstances = Some 1,
                opt_autoProvision = None\<rparr>"

definition scenario_1 :: "instance_pool \<times> runtime" where
  "scenario_1 = snd (getOrCreate pool_one runtime0 ''a'' True)"

section \<open>Reading a trace\<close>

text \<open>
  \<open>replay held os\<close> reads a stretch of trace with one bit, whether the lock is held: an
  \<^verbatim>\<open>acquire\<close> that returns (\<open>Granted\<close>) while it is held is a violation (\<open>None\<close>), one that
  returns while it is free takes it, and every \<^verbatim>\<open>'unlocked'\<close> emission frees it.
  \<open>extends held tr s\<close>: the trace of \<open>s\<close> continues \<open>tr\<close>, and replaying the continuation
  from \<open>held\<close> meets no violation and ends in the lock flag of \<open>s\<close>. \<open>holder_consistent\<close>:
  the holder is present exactly when the flag is set.
\<close>

fun replay :: "bool \<Rightarrow> obs list \<Rightarrow> bool option" where
  "replay held [] = Some held"
| "replay held (Granted via sock # os) = (if held then None else replay True os)"
| "replay held (Emitted Ev_unlocked name # os) = replay False os"
| "replay held (x # os) = replay held os"


definition extends :: "bool \<Rightarrow> obs list \<Rightarrow> managed_instance \<times> runtime \<Rightarrow> bool" where
  "extends held tr s =
     (take (length tr) (trace (snd s)) = tr
      \<and> replay held (drop (length tr) (trace (snd s))) = Some (locked (fst s)))"

text \<open>
  \<open>unlock_count\<close> counts the executions of \<^verbatim>\<open>unlock\<close> in a trace (each emits
  \<^verbatim>\<open>'unlocked'\<close> once); \<open>unlocks_by evs s\<close> is the number of executions that the events
  \<open>evs\<close> cause from the state \<open>s\<close>.
\<close>

fun unlock_count :: "obs list \<Rightarrow> nat" where
  "unlock_count [] = 0"
| "unlock_count (Emitted Ev_unlocked name # os) = Suc (unlock_count os)"
| "unlock_count (x # os) = unlock_count os"

definition unlocks_by :: "event list \<Rightarrow> managed_instance \<times> runtime \<Rightarrow> nat" where
  "unlocks_by evs s = unlock_count (trace (snd (run evs s))) - unlock_count (trace (snd s))"

text \<open>
  The waits of a trace, by promise number: those that began (\<open>waits_queued\<close>) and those that
  ended with the lock (\<open>waits_granted\<close>). \<open>qid\<close> is the promise of a queue entry.
  \<open>promotion_order\<close> lists every wait that has the lock behind it or in front of it: granted,
  then promoted with the continuation still to run, then queued. \<open>fifo_inv\<close> is the invariant
  of the runs: queue entries hold the wrapper of their own promise, microtasks are settled
  promises, timers and all listed promises are of promises already created, and the promotion
  order and the order of enqueueing ascend.
\<close>

fun waits_granted :: "obs list \<Rightarrow> nat list" where
  "waits_granted [] = []"
| "waits_granted (Granted (Some n) sock # os) = n # waits_granted os"
| "waits_granted (x # os) = waits_granted os"

fun waits_queued :: "obs list \<Rightarrow> nat list" where
  "waits_queued [] = []"
| "waits_queued (Queued n sock # os) = n # waits_queued os"
| "waits_queued (x # os) = waits_queued os"

definition qid :: "queue_item \<Rightarrow> nat" where
  "qid item = (case resolve item of PromiseResolve n \<Rightarrow> n | PromiseReject n \<Rightarrow> n | ResolveWrapper n \<Rightarrow> n)"

definition fulfilled_tasks :: "runtime \<Rightarrow> nat list" where
  "fulfilled_tasks r = filter (\<lambda>n. promises r n = Fulfilled) (microtasks r)"

definition promotion_order :: "managed_instance \<times> runtime \<Rightarrow> nat list" where
  "promotion_order s = waits_granted (trace (snd s)) @ fulfilled_tasks (snd s) @ map qid (queue (fst s))"

definition fifo_inv :: "managed_instance \<times> runtime \<Rightarrow> bool" where
  "fifo_inv s =
     ((\<forall>item \<in> set (queue (fst s)). resolve item = ResolveWrapper (qid item))
      \<and> (\<forall>n \<in> set (microtasks (snd s)). promises (snd s) n \<noteq> Pending \<and> n < fresh (snd s))
      \<and> (\<forall>n. timers (snd s) n \<noteq> None \<longrightarrow> n < fresh (snd s))
      \<and> sorted_wrt (<) (promotion_order s)
      \<and> (\<forall>n \<in> set (promotion_order s). n < fresh (snd s))
      \<and> sorted_wrt (<) (waits_queued (trace (snd s)))
      \<and> (\<forall>n \<in> set (waits_queued (trace (snd s))). n < fresh (snd s)))"

text \<open>\<open>tasks_ok\<close> is the part of \<open>fifo_inv\<close> that is about the runtime alone.\<close>

definition tasks_ok :: "runtime \<Rightarrow> bool" where
  "tasks_ok r = ((\<forall>n \<in> set (microtasks r). promises r n \<noteq> Pending \<and> n < fresh r)
                 \<and> (\<forall>n. timers r n \<noteq> None \<longrightarrow> n < fresh r))"

text \<open>
  Every wait that is pending has an \<^verbatim>\<open>acquire\<close> suspended on it: \<^verbatim>\<open>acquire\<close> is the only caller of
  \<^verbatim>\<open>waitForFree\<close>, and it awaits the promise at once.
\<close>

definition waits_awaited :: "runtime \<Rightarrow> bool" where
  "waits_awaited r = (\<forall>n. n < fresh r \<and> promises r n = Pending \<longrightarrow> awaiting r n \<noteq> None)"


definition waiting_2 :: "managed_instance \<times> runtime" where
  "waiting_2 = run [Acquire 1 5000, Acquire 2 5000] (inst_a, runtime0)"

text \<open>
  Socket 1 has released while socket 2 waited, and socket 3 has taken the free instance before
  the continuation of socket 2 ran (\<open>barged_3\<close>). The wait of socket 2 has timed out and socket 3
  has queued behind its entry (\<open>stale_head\<close>).
\<close>

definition barged_3 :: "managed_instance \<times> runtime" where
  "barged_3 = run [Acquire 1 5000, Acquire 2 5000, SocketEmits 1 OnClose, Acquire 3 5000] (inst_a, runtime0)"

definition stale_head :: "managed_instance \<times> runtime" where
  "stale_head = run [Acquire 1 5000, Acquire 2 5000, Advance 5000, TimerFires 0, Microtask,
                     Acquire 3 5000] (inst_a, runtime0)"

section \<open>Properties of the registry\<close>

lemma cleanup_fold:
  "distinct (map fst (pre @ ys)) \<Longrightarrow>
   fold (cleanup_step alive) ys (filter (\<lambda>kv. alive (pid (snd kv))) pre @ ys, c) =
     (filter (\<lambda>kv. alive (pid (snd kv))) (pre @ ys),
      c + length (filter (\<lambda>kv. \<not> alive (pid (snd kv))) ys))"
proof (induction ys arbitrary: pre c)
  case Nil
  then show ?case by simp
next
  case (Cons y ys)
  have d: "distinct (map fst ((pre @ [y]) @ ys))" using Cons.prems by simp
  have notin: "fst y \<notin> fst ` set pre" "fst y \<notin> fst ` set ys" using Cons.prems by auto
  show ?case
  proof (cases "alive (pid (snd y))")
    case True
    then have "cleanup_step alive y (filter (\<lambda>kv. alive (pid (snd kv))) pre @ y # ys, c)
        = (filter (\<lambda>kv. alive (pid (snd kv))) (pre @ [y]) @ ys, c)"
      by (simp add: cleanup_step_def isProcessRunning_def)
    then show ?thesis using Cons.IH [OF d, of c] True by simp
  next
    case False
    have del: "AList.delete (fst y) (filter (\<lambda>kv. alive (pid (snd kv))) pre @ y # ys)
        = filter (\<lambda>kv. alive (pid (snd kv))) pre @ ys"
    proof -
      have n1: "fst y \<notin> fst ` set (filter (\<lambda>kv. alive (pid (snd kv))) pre)"
        using notin(1) by auto
      have "AList.delete (fst y) (filter (\<lambda>kv. alive (pid (snd kv))) pre @ y # ys)
          = AList.delete (fst y) (filter (\<lambda>kv. alive (pid (snd kv))) pre)
            @ AList.delete (fst y) (y # ys)"
        by (simp only: AList.delete_eq filter_append)
      also have "\<dots> = filter (\<lambda>kv. alive (pid (snd kv))) pre @ ys"
        using n1 notin(2) by (simp del: filter.simps)
      finally show ?thesis .
    qed
    have "cleanup_step alive y (filter (\<lambda>kv. alive (pid (snd kv))) pre @ y # ys, c)
        = (filter (\<lambda>kv. alive (pid (snd kv))) (pre @ [y]) @ ys, Suc c)"
      using False del by (simp add: cleanup_step_def isProcessRunning_def)
    then show ?thesis using Cons.IH [OF d, of "Suc c"] False by simp
  qed
qed

text \<open>
  C9. Stale cleanup is exact: on a registry of N entries of which M have a pid that is not a
  running process, \<^verbatim>\<open>cleanupStaleInstances\<close> returns M, the registry afterwards is the
  registry before without exactly those M entries (the entries of running processes are kept,
  unchanged and in order), and N - M entries remain.
\<close>

theorem cleanupStale_exact:
  assumes "distinct (map fst (loadRegistry file))"
  shows "fst (cleanupStaleInstances alive file) =
           length (filter (\<lambda>kv. \<not> isProcessRunning alive (pid (snd kv))) (loadRegistry file))
       \<and> loadRegistry (snd (cleanupStaleInstances alive file)) =
           filter (\<lambda>kv. isProcessRunning alive (pid (snd kv))) (loadRegistry file)
       \<and> length (loadRegistry (snd (cleanupStaleInstances alive file)))
           + fst (cleanupStaleInstances alive file) = length (loadRegistry file)"
proof -
  let ?r = "loadRegistry file"
  let ?live = "\<lambda>kv. alive (pid (snd kv))"
  have f: "fold (cleanup_step alive) ?r (?r, 0) =
      (filter ?live ?r, length (filter (\<lambda>kv. \<not> alive (pid (snd kv))) ?r))"
    using cleanup_fold [of "[]" ?r alive 0] assms by simp
  have keep: "length (filter (\<lambda>kv. \<not> alive (pid (snd kv))) ?r) = 0 \<Longrightarrow> filter ?live ?r = ?r"
    by (auto simp add: filter_id_conv filter_empty_conv)
  have cnt: "fst (cleanupStaleInstances alive file) = length (filter (\<lambda>kv. \<not> alive (pid (snd kv))) ?r)"
    by (simp add: cleanupStaleInstances_def Let_def f)
  have reg: "loadRegistry (snd (cleanupStaleInstances alive file)) = filter ?live ?r"
  proof (cases "length (filter (\<lambda>kv. \<not> alive (pid (snd kv))) ?r) = 0")
    case True
    then have "snd (cleanupStaleInstances alive file) = file"
      by (simp add: cleanupStaleInstances_def Let_def f)
    then show ?thesis using keep [OF True] by simp
  next
    case False
    then have "snd (cleanupStaleInstances alive file) = Stored (filter ?live ?r)"
      by (simp add: cleanupStaleInstances_def Let_def f saveRegistry_def)
    then show ?thesis by (simp add: loadRegistry_def)
  qed
  have "length (filter ?live ?r) + length (filter (\<lambda>kv. \<not> alive (pid (snd kv))) ?r) = length ?r"
    by (rule sum_length_filter_compl)
  then show ?thesis using cnt reg by (simp add: isProcessRunning_def)
qed

theorem cleanupStale_exact_witness:
  "fst (cleanupStaleInstances (\<lambda>q. q = 200) (Stored ex_registry)) = 2
   \<and> loadRegistry (snd (cleanupStaleInstances (\<lambda>q. q = 200) (Stored ex_registry))) =
       [(''/data/b'', \<lparr>port = 12001, pid = 200, started = ''t1'', version = ''17.5''\<rparr>)]"
  using cleanupStale_exact [of "Stored ex_registry" "\<lambda>q. q = 200"]
  by (simp add: ex_registry_def loadRegistry_def isProcessRunning_def)

section \<open>Properties of the port allocator\<close>

lemma scanPorts_Inr:
  "scanPorts rf probe p = Inr q \<Longrightarrow>
     p \<le> q \<and> q \<le> PORT_RANGE_END \<and> probe q \<and> \<not> isPortInRegistry rf q
     \<and> (\<forall>x. p \<le> x \<and> x < q \<longrightarrow> \<not> (probe x \<and> \<not> isPortInRegistry rf x))"
proof (induction rf probe p rule: scanPorts.induct)
  case (1 rf probe p)
  show ?case
  proof (cases "p \<le> PORT_RANGE_END")
    case False
    then show ?thesis using "1.prems" by (simp add: scanPorts.simps [of rf probe p])
  next
    case True
    show ?thesis
    proof (cases "probe p \<and> \<not> isPortInRegistry rf p")
      case hit: True
      then have "q = p" using "1.prems" True by (simp add: scanPorts.simps [of rf probe p])
      then show ?thesis using hit True by auto
    next
      case miss: False
      have "scanPorts rf probe p = scanPorts rf probe (p + 1)"
        using miss True by (subst scanPorts.simps) auto
      then have rec: "scanPorts rf probe (p + 1) = Inr q"
        using "1.prems" by simp
      have ih: "p + 1 \<le> q \<and> q \<le> PORT_RANGE_END \<and> probe q \<and> \<not> isPortInRegistry rf q
          \<and> (\<forall>x. p + 1 \<le> x \<and> x < q \<longrightarrow> \<not> (probe x \<and> \<not> isPortInRegistry rf x))"
        using "1.IH" [OF True miss rec] .
      have "\<forall>x. p \<le> x \<and> x < q \<longrightarrow> \<not> (probe x \<and> \<not> isPortInRegistry rf x)"
      proof (intro allI impI)
        fix x assume x: "p \<le> x \<and> x < q"
        show "\<not> (probe x \<and> \<not> isPortInRegistry rf x)"
        proof (cases "x = p")
          case True then show ?thesis using miss by simp
        next
          case False
          then have "p + 1 \<le> x \<and> x < q" using x by simp
          then show ?thesis using ih by blast
        qed
      qed
      then show ?thesis using ih by simp
    qed
  qed
qed

lemma scanPorts_Inl:
  "scanPorts rf probe p = Inl e \<Longrightarrow> e = RangeExhausted"
proof (induction rf probe p rule: scanPorts.induct)
  case (1 rf probe p)
  then show ?case
    by (cases "p \<le> PORT_RANGE_END"; cases "probe p \<and> \<not> isPortInRegistry rf p")
       (simp_all add: scanPorts.simps [of rf probe p])
qed

lemma scanPorts_hit:
  "p \<le> PORT_RANGE_END \<Longrightarrow> probe p \<Longrightarrow> \<not> isPortInRegistry rf p \<Longrightarrow> scanPorts rf probe p = Inr p"
  by (simp add: scanPorts.simps [of rf probe p])

lemma allocatePort_no_live:
  assumes "\<forall>e. map_of (loadRegistry rf) dir = Some e \<longrightarrow> \<not> alive (pid e)"
  shows "allocatePort rf alive probe dir preferredPort =
     (case preferredPort of
        None \<Rightarrow> scanPorts rf probe PORT_RANGE_START
      | Some pp \<Rightarrow>
          if pp < PORT_RANGE_START \<or> pp > PORT_RANGE_END then Inl OutOfRange
          else if probe pp \<and> \<not> isPortInRegistry rf pp then Inr pp
          else scanPorts rf probe PORT_RANGE_START)"
  using assms by (auto simp add: allocatePort_def Let_def split: option.splits)

lemma scanPorts_none:
  "(\<forall>x. p \<le> x \<and> x \<le> PORT_RANGE_END \<longrightarrow> \<not> (probe x \<and> \<not> isPortInRegistry rf x)) \<Longrightarrow>
     scanPorts rf probe p = Inl RangeExhausted"
proof (induction rf probe p rule: scanPorts.induct)
  case (1 rf probe p)
  show ?case
  proof (cases "p \<le> PORT_RANGE_END")
    case False
    then show ?thesis by (subst scanPorts.simps) simp
  next
    case True
    have miss: "\<not> (probe p \<and> \<not> isPortInRegistry rf p)" using "1.prems" True by simp
    have rest: "\<forall>x. p + 1 \<le> x \<and> x \<le> PORT_RANGE_END \<longrightarrow> \<not> (probe x \<and> \<not> isPortInRegistry rf x)"
      using "1.prems" by simp
    have "scanPorts rf probe p = scanPorts rf probe (p + 1)"
      using miss True by (subst scanPorts.simps) auto
    then show ?thesis using "1.IH" [OF True miss rest] by simp
  qed
qed

lemma scanPorts_least:
  "p \<le> q \<Longrightarrow> q \<le> PORT_RANGE_END \<Longrightarrow> probe q \<Longrightarrow> \<not> isPortInRegistry rf q \<Longrightarrow>
   (\<forall>x. p \<le> x \<and> x < q \<longrightarrow> \<not> (probe x \<and> \<not> isPortInRegistry rf x)) \<Longrightarrow>
     scanPorts rf probe p = Inr q"
proof (induction rf probe p rule: scanPorts.induct)
  case (1 rf probe p)
  have inr: "p \<le> PORT_RANGE_END" using "1.prems" by simp
  show ?case
  proof (cases "p = q")
    case True
    then show ?thesis using "1.prems" by (subst scanPorts.simps) simp
  next
    case False
    then have lt: "p < q" using "1.prems"(1) by simp
    then have miss: "\<not> (probe p \<and> \<not> isPortInRegistry rf p)" using "1.prems"(5) by simp
    have rest: "\<forall>x. p + 1 \<le> x \<and> x < q \<longrightarrow> \<not> (probe x \<and> \<not> isPortInRegistry rf x)"
      using "1.prems"(5) by simp
    have le: "p + 1 \<le> q" using lt by simp
    have "scanPorts rf probe p = scanPorts rf probe (p + 1)"
      using miss inr by (subst scanPorts.simps) auto
    then show ?thesis
      using "1.IH" [OF inr miss le "1.prems"(2) "1.prems"(3) "1.prems"(4) rest] by simp
  qed
qed

lemma scanPorts_Inl_none:
  "scanPorts rf probe p = Inl e \<Longrightarrow>
     (\<forall>x. p \<le> x \<and> x \<le> PORT_RANGE_END \<longrightarrow> \<not> (probe x \<and> \<not> isPortInRegistry rf x))"
proof (induction rf probe p rule: scanPorts.induct)
  case (1 rf probe p)
  show ?case
  proof (cases "p \<le> PORT_RANGE_END")
    case False
    then show ?thesis by auto
  next
    case True
    have miss: "\<not> (probe p \<and> \<not> isPortInRegistry rf p)"
    proof
      assume "probe p \<and> \<not> isPortInRegistry rf p"
      then have "scanPorts rf probe p = Inr p" using True by (subst scanPorts.simps) simp
      then show False using "1.prems" by simp
    qed
    have "scanPorts rf probe p = scanPorts rf probe (p + 1)"
      using miss True by (subst scanPorts.simps) auto
    then have rec: "scanPorts rf probe (p + 1) = Inl e" using "1.prems" by simp
    have ih: "\<forall>x. p + 1 \<le> x \<and> x \<le> PORT_RANGE_END \<longrightarrow> \<not> (probe x \<and> \<not> isPortInRegistry rf x)"
      using "1.IH" [OF True miss rec] .
    show ?thesis
    proof (intro allI impI)
      fix x assume x: "p \<le> x \<and> x \<le> PORT_RANGE_END"
      show "\<not> (probe x \<and> \<not> isPortInRegistry rf x)"
      proof (cases "x = p")
        case True then show ?thesis using miss by simp
      next
        case False
        then have "p + 1 \<le> x \<and> x \<le> PORT_RANGE_END" using x by simp
        then show ?thesis using ih by blast
      qed
    qed
  qed
qed

lemma scan_characterised:
  "(\<forall>q. (scanPorts rf probe 12000 = Inr q)
        = (12000 \<le> q \<and> q \<le> 12999 \<and> probe q \<and> \<not> isPortInRegistry rf q
           \<and> (\<forall>x. 12000 \<le> x \<and> x < q \<longrightarrow> \<not> (probe x \<and> \<not> isPortInRegistry rf x))))
   \<and> ((scanPorts rf probe 12000 = Inl RangeExhausted)
        = (\<forall>x. 12000 \<le> x \<and> x \<le> 12999 \<longrightarrow> \<not> (probe x \<and> \<not> isPortInRegistry rf x)))
   \<and> ((\<exists>x. 12000 \<le> x \<and> x \<le> 12999 \<and> probe x \<and> \<not> isPortInRegistry rf x)
        \<longrightarrow> (\<exists>q. scanPorts rf probe 12000 = Inr q))"
proof (intro conjI allI)
  fix q
  show "(scanPorts rf probe 12000 = Inr q)
        = (12000 \<le> q \<and> q \<le> 12999 \<and> probe q \<and> \<not> isPortInRegistry rf q
           \<and> (\<forall>x. 12000 \<le> x \<and> x < q \<longrightarrow> \<not> (probe x \<and> \<not> isPortInRegistry rf x)))"
  proof
    assume "scanPorts rf probe 12000 = Inr q"
    from scanPorts_Inr [OF this]
    show "12000 \<le> q \<and> q \<le> 12999 \<and> probe q \<and> \<not> isPortInRegistry rf q
           \<and> (\<forall>x. 12000 \<le> x \<and> x < q \<longrightarrow> \<not> (probe x \<and> \<not> isPortInRegistry rf x))"
      by (simp add: PORT_RANGE_END_def)
  next
    assume h: "12000 \<le> q \<and> q \<le> 12999 \<and> probe q \<and> \<not> isPortInRegistry rf q
           \<and> (\<forall>x. 12000 \<le> x \<and> x < q \<longrightarrow> \<not> (probe x \<and> \<not> isPortInRegistry rf x))"
    show "scanPorts rf probe 12000 = Inr q"
      by (rule scanPorts_least) (use h in \<open>simp_all add: PORT_RANGE_END_def\<close>)
  qed
next
  show "(scanPorts rf probe 12000 = Inl RangeExhausted)
        = (\<forall>x. 12000 \<le> x \<and> x \<le> 12999 \<longrightarrow> \<not> (probe x \<and> \<not> isPortInRegistry rf x))"
  proof
    assume "scanPorts rf probe 12000 = Inl RangeExhausted"
    from scanPorts_Inl_none [OF this]
    show "\<forall>x. 12000 \<le> x \<and> x \<le> 12999 \<longrightarrow> \<not> (probe x \<and> \<not> isPortInRegistry rf x)"
      by (simp add: PORT_RANGE_END_def)
  next
    assume h: "\<forall>x. 12000 \<le> x \<and> x \<le> 12999 \<longrightarrow> \<not> (probe x \<and> \<not> isPortInRegistry rf x)"
    show "scanPorts rf probe 12000 = Inl RangeExhausted"
      by (rule scanPorts_none) (use h in \<open>simp add: PORT_RANGE_END_def\<close>)
  qed
next
  show "(\<exists>x. 12000 \<le> x \<and> x \<le> 12999 \<and> probe x \<and> \<not> isPortInRegistry rf x)
        \<longrightarrow> (\<exists>q. scanPorts rf probe 12000 = Inr q)"
  proof
    assume ex: "\<exists>x. 12000 \<le> x \<and> x \<le> 12999 \<and> probe x \<and> \<not> isPortInRegistry rf x"
    show "\<exists>q. scanPorts rf probe 12000 = Inr q"
    proof (cases "scanPorts rf probe 12000")
      case (Inr q)
      then show ?thesis by blast
    next
      case (Inl e)
      from scanPorts_Inl_none [OF this]
      have "\<forall>x. 12000 \<le> x \<and> x \<le> 12999 \<longrightarrow> \<not> (probe x \<and> \<not> isPortInRegistry rf x)"
        by (simp add: PORT_RANGE_END_def)
      then show ?thesis using ex by blast
    qed
  qed
qed

text \<open>
  C7, as amended. When the registry has no entry of a running process for the requested data
  directory (otherwise the port of that entry is returned before the preferred port is looked
  at): a preferred port outside 12000..12999 fails with the out-of-range error; a preferred port
  that any registry entry claims is never returned, whatever the probe says; and for such a port
  inside the range the allocator returns a port exactly when it is the least port of 12000..12999
  that the probe finds free and no entry claims. Whenever the range has such a port one is
  returned, and it is not the preferred port; the range-exhausted error is raised exactly when
  the range has none. Nothing makes the returned port larger than the preferred port.
\<close>

theorem allocatePort_preferred:
  assumes "\<forall>e. map_of (loadRegistry rf) dir = Some e \<longrightarrow> \<not> alive (pid e)"
  shows "(pp < 12000 \<or> pp > 12999 \<longrightarrow> allocatePort rf alive probe dir (Some pp) = Inl OutOfRange)
       \<and> (isPortInRegistry rf pp \<longrightarrow> allocatePort rf alive probe dir (Some pp) \<noteq> Inr pp)
       \<and> (12000 \<le> pp \<and> pp \<le> 12999 \<and> isPortInRegistry rf pp \<longrightarrow>
            (\<forall>q. (allocatePort rf alive probe dir (Some pp) = Inr q)
                = (12000 \<le> q \<and> q \<le> 12999 \<and> probe q \<and> \<not> isPortInRegistry rf q
                   \<and> (\<forall>x. 12000 \<le> x \<and> x < q \<longrightarrow> \<not> (probe x \<and> \<not> isPortInRegistry rf x))))
          \<and> ((\<exists>x. 12000 \<le> x \<and> x \<le> 12999 \<and> probe x \<and> \<not> isPortInRegistry rf x)
                \<longrightarrow> (\<exists>q. allocatePort rf alive probe dir (Some pp) = Inr q \<and> q \<noteq> pp))
          \<and> ((allocatePort rf alive probe dir (Some pp) = Inl RangeExhausted)
                = (\<forall>x. 12000 \<le> x \<and> x \<le> 12999 \<longrightarrow> \<not> (probe x \<and> \<not> isPortInRegistry rf x))))"
proof -
  note a = allocatePort_no_live [OF assms, of probe "Some pp"]
  note sc = scan_characterised [of rf probe]
  have p1: "pp < 12000 \<or> pp > 12999 \<longrightarrow> allocatePort rf alive probe dir (Some pp) = Inl OutOfRange"
    using a by (auto simp add: PORT_RANGE_START_def PORT_RANGE_END_def)
  have e: "12000 \<le> pp \<and> pp \<le> 12999 \<and> isPortInRegistry rf pp \<Longrightarrow>
      allocatePort rf alive probe dir (Some pp) = scanPorts rf probe 12000"
    using a by (simp add: PORT_RANGE_START_def PORT_RANGE_END_def)
  have p2: "isPortInRegistry rf pp \<longrightarrow> allocatePort rf alive probe dir (Some pp) \<noteq> Inr pp"
  proof
    assume c: "isPortInRegistry rf pp"
    show "allocatePort rf alive probe dir (Some pp) \<noteq> Inr pp"
    proof
      assume r: "allocatePort rf alive probe dir (Some pp) = Inr pp"
      then have "scanPorts rf probe 12000 = Inr pp"
        using a c by (simp add: PORT_RANGE_START_def split: if_splits)
      then show False using sc c by blast
    qed
  qed
  have p3: "12000 \<le> pp \<and> pp \<le> 12999 \<and> isPortInRegistry rf pp \<longrightarrow>
            (\<forall>q. (allocatePort rf alive probe dir (Some pp) = Inr q)
                = (12000 \<le> q \<and> q \<le> 12999 \<and> probe q \<and> \<not> isPortInRegistry rf q
                   \<and> (\<forall>x. 12000 \<le> x \<and> x < q \<longrightarrow> \<not> (probe x \<and> \<not> isPortInRegistry rf x))))
          \<and> ((\<exists>x. 12000 \<le> x \<and> x \<le> 12999 \<and> probe x \<and> \<not> isPortInRegistry rf x)
                \<longrightarrow> (\<exists>q. allocatePort rf alive probe dir (Some pp) = Inr q \<and> q \<noteq> pp))
          \<and> ((allocatePort rf alive probe dir (Some pp) = Inl RangeExhausted)
                = (\<forall>x. 12000 \<le> x \<and> x \<le> 12999 \<longrightarrow> \<not> (probe x \<and> \<not> isPortInRegistry rf x)))"
  proof
    assume h: "12000 \<le> pp \<and> pp \<le> 12999 \<and> isPortInRegistry rf pp"
    have c: "isPortInRegistry rf pp" using h by simp
    have q1: "\<forall>q. (scanPorts rf probe 12000 = Inr q)
                = (12000 \<le> q \<and> q \<le> 12999 \<and> probe q \<and> \<not> isPortInRegistry rf q
                   \<and> (\<forall>x. 12000 \<le> x \<and> x < q \<longrightarrow> \<not> (probe x \<and> \<not> isPortInRegistry rf x)))"
      using sc by (rule conjunct1)
    have q3: "(scanPorts rf probe 12000 = Inl RangeExhausted)
                = (\<forall>x. 12000 \<le> x \<and> x \<le> 12999 \<longrightarrow> \<not> (probe x \<and> \<not> isPortInRegistry rf x))"
      using sc by (rule conjunct2 [THEN conjunct1])
    have q2: "(\<exists>x. 12000 \<le> x \<and> x \<le> 12999 \<and> probe x \<and> \<not> isPortInRegistry rf x)
                \<longrightarrow> (\<exists>q. scanPorts rf probe 12000 = Inr q \<and> q \<noteq> pp)"
    proof
      assume "\<exists>x. 12000 \<le> x \<and> x \<le> 12999 \<and> probe x \<and> \<not> isPortInRegistry rf x"
      then obtain q where s: "scanPorts rf probe 12000 = Inr q"
        using sc by blast
      then have "\<not> isPortInRegistry rf q" using q1 by blast
      then have "q \<noteq> pp" using c by blast
      then show "\<exists>q. scanPorts rf probe 12000 = Inr q \<and> q \<noteq> pp" using s by blast
    qed
    show "(\<forall>q. (allocatePort rf alive probe dir (Some pp) = Inr q)
                = (12000 \<le> q \<and> q \<le> 12999 \<and> probe q \<and> \<not> isPortInRegistry rf q
                   \<and> (\<forall>x. 12000 \<le> x \<and> x < q \<longrightarrow> \<not> (probe x \<and> \<not> isPortInRegistry rf x))))
          \<and> ((\<exists>x. 12000 \<le> x \<and> x \<le> 12999 \<and> probe x \<and> \<not> isPortInRegistry rf x)
                \<longrightarrow> (\<exists>q. allocatePort rf alive probe dir (Some pp) = Inr q \<and> q \<noteq> pp))
          \<and> ((allocatePort rf alive probe dir (Some pp) = Inl RangeExhausted)
                = (\<forall>x. 12000 \<le> x \<and> x \<le> 12999 \<longrightarrow> \<not> (probe x \<and> \<not> isPortInRegistry rf x)))"
      unfolding e [OF h] using q1 q2 q3 by (intro conjI)
  qed
  show ?thesis using p1 p2 p3 by (intro conjI)
qed

theorem allocatePort_preferred_witness:
  "allocatePort stale_12005 (\<lambda>q. False) (\<lambda>p. p \<noteq> 12000) ''/data/new'' (Some 80) = Inl OutOfRange
   \<and> allocatePort stale_12005 (\<lambda>q. False) (\<lambda>p. p \<noteq> 12000) ''/data/new'' (Some 12005) = Inr 12001
   \<and> allocatePort stale_12005 (\<lambda>q. False) (\<lambda>p. p = 12999) ''/data/new'' (Some 12005) = Inr 12999
   \<and> allocatePort stale_12005 (\<lambda>q. False) (\<lambda>p. p = 12005) ''/data/new'' (Some 12005) = Inl RangeExhausted"
proof -
  have n: "\<forall>e. map_of (loadRegistry stale_12005) ''/data/new'' = Some e \<longrightarrow> \<not> (\<lambda>q. False) (pid e)"
    by simp
  have c: "isPortInRegistry stale_12005 12005"
    by (simp add: stale_12005_def isPortInRegistry_def loadRegistry_def)
  have k: "\<And>x. isPortInRegistry stale_12005 x = (x = 12005)"
    by (auto simp add: stale_12005_def isPortInRegistry_def loadRegistry_def)
  have r: "(12000::int) \<le> 12005 \<and> (12005::int) \<le> 12999 \<and> isPortInRegistry stale_12005 12005"
    using c by simp
  have a: "allocatePort stale_12005 (\<lambda>q. False) (\<lambda>p. p \<noteq> 12000) ''/data/new'' (Some 80) = Inl OutOfRange"
  proof -
    have o: "(80::int) < 12000 \<or> (80::int) > 12999" by simp
    show ?thesis
      using allocatePort_preferred [OF n, of 80 "\<lambda>p. p \<noteq> 12000"] o by blast
  qed
  have b: "allocatePort stale_12005 (\<lambda>q. False) (\<lambda>p. p \<noteq> 12000) ''/data/new'' (Some 12005) = Inr 12001"
  proof -
    have l: "(12000::int) \<le> 12001 \<and> (12001::int) \<le> 12999 \<and> (12001::int) \<noteq> 12000
        \<and> \<not> isPortInRegistry stale_12005 12001
        \<and> (\<forall>x. 12000 \<le> x \<and> x < 12001 \<longrightarrow> \<not> (x \<noteq> 12000 \<and> \<not> isPortInRegistry stale_12005 x))"
      by (auto simp add: k)
    show ?thesis
      using allocatePort_preferred [OF n, of 12005 "\<lambda>p. p \<noteq> 12000"] r l by blast
  qed
  have d: "allocatePort stale_12005 (\<lambda>q. False) (\<lambda>p. p = 12999) ''/data/new'' (Some 12005) = Inr 12999"
  proof -
    have l: "(12000::int) \<le> 12999 \<and> (12999::int) \<le> 12999 \<and> (12999::int) = 12999
        \<and> \<not> isPortInRegistry stale_12005 12999
        \<and> (\<forall>x. 12000 \<le> x \<and> x < 12999 \<longrightarrow> \<not> (x = 12999 \<and> \<not> isPortInRegistry stale_12005 x))"
      by (auto simp add: k)
    show ?thesis
      using allocatePort_preferred [OF n, of 12005 "\<lambda>p. p = 12999"] r l by blast
  qed
  have x: "allocatePort stale_12005 (\<lambda>q. False) (\<lambda>p. p = 12005) ''/data/new'' (Some 12005) = Inl RangeExhausted"
  proof -
    have l: "\<forall>x. 12000 \<le> x \<and> x \<le> 12999 \<longrightarrow> \<not> (x = 12005 \<and> \<not> isPortInRegistry stale_12005 x)"
      by (auto simp add: k)
    show ?thesis
      using allocatePort_preferred [OF n, of 12005 "\<lambda>p. p = 12005"] r l by blast
  qed
  show ?thesis using a b d x by (intro conjI)
qed


text \<open>
  The claim as stated fails twice. With the stale entry claiming 12005 and every port free, the
  allocator returns 12000, which is below 12006. With an entry of a running process for the same
  data directory, an out-of-range preferred port raises no error, and the preferred port 12005,
  claimed by that entry, is returned.
\<close>

theorem allocatePort_preferred_counterexample:
  "allocatePort stale_12005 (\<lambda>q. False) (\<lambda>p. True) ''/data/new'' (Some 12005) = Inr 12000
   \<and> \<not> (12006 \<le> (12000::int))
   \<and> allocatePort live_12005 (\<lambda>q. q = 4242) (\<lambda>p. True) ''/data/db'' (Some 80) = Inr 12005
   \<and> isPortInRegistry live_12005 12005
   \<and> allocatePort live_12005 (\<lambda>q. q = 4242) (\<lambda>p. True) ''/data/db'' (Some 12005) = Inr 12005"
  by (simp add: allocatePort_def stale_12005_def live_12005_def loadRegistry_def isPortInRegistry_def
      PORT_RANGE_START_def PORT_RANGE_END_def scanPorts.simps [of _ _ 12000])

section \<open>Properties of the pool constructor\<close>

text \<open>
  C10. For every options object whose \<^verbatim>\<open>maxInstances\<close> is falsy (absent or 0) the pool has
  \<open>maxInstances = 100\<close>, so no constructed pool has the limit 0; a truthy limit is kept; and a
  falsy \<^verbatim>\<open>baseDir\<close> gives \<open>''./data''\<close>, a falsy \<^verbatim>\<open>memoryMode\<close> gives \<open>False\<close>.
\<close>

theorem constructor_defaults:
  "(falsy truthy_number (opt_maxInstances options) \<longrightarrow> maxInstances (InstancePool options) = 100)
   \<and> (opt_maxInstances options = Some 0 \<longrightarrow> maxInstances (InstancePool options) = 100)
   \<and> maxInstances (InstancePool options) \<noteq> 0
   \<and> (falsy truthy_string (opt_baseDir options) \<longrightarrow> baseDir (InstancePool options) = ''./data'')
   \<and> (falsy truthy_bool (opt_memoryMode options) \<longrightarrow> poolMemoryMode (InstancePool options) = False)
   \<and> (\<forall>n. opt_maxInstances options = Some n \<and> n \<noteq> 0 \<longrightarrow> maxInstances (InstancePool options) = n)"
  by (auto simp add: InstancePool_def js_or_def falsy_def truthy_number_def truthy_string_def
      truthy_bool_def split: option.splits)

theorem constructor_defaults_witness:
  "maxInstances (InstancePool \<lparr>opt_baseDir = Some '''', opt_memoryMode = Some False,
       opt_maxInstances = Some 0, opt_autoProvision = None\<rparr>) = 100
   \<and> baseDir (InstancePool \<lparr>opt_baseDir = Some '''', opt_memoryMode = Some False,
       opt_maxInstances = Some 0, opt_autoProvision = None\<rparr>) = ''./data''
   \<and> poolMemoryMode (InstancePool \<lparr>opt_baseDir = Some '''', opt_memoryMode = Some False,
       opt_maxInstances = Some 0, opt_autoProvision = None\<rparr>) = False"
proof -
  let ?o = "\<lparr>opt_baseDir = Some '''', opt_memoryMode = Some False,
       opt_maxInstances = Some 0, opt_autoProvision = None\<rparr>"
  have f: "falsy truthy_number (opt_maxInstances ?o)" "falsy truthy_string (opt_baseDir ?o)"
     "falsy truthy_bool (opt_memoryMode ?o)"
    by (simp_all add: falsy_def truthy_number_def truthy_string_def truthy_bool_def)
  show ?thesis using constructor_defaults [of ?o] f by blast
qed

section \<open>Properties of initialize\<close>

lemma initialize_begin_boots:
  "boots i \<Longrightarrow> \<exists>r1. initialize_begin i r = (Awaiting (length (engines r)), i\<lparr>db := Some (length (engines r))\<rparr>, r1)
      \<and> engines r1 = engines r @ [Booting] \<and> trace r1 = trace r"
  by (auto simp add: boots_def initialize_begin_def new_PGlite_def Let_def split: option.splits)

lemma initialize_begin_set:
  "db i = Some h \<Longrightarrow> initialize_begin i r = (Returned h, i, r)"
  by (simp add: initialize_begin_def)

lemma initialize_set:
  "db i = Some h \<Longrightarrow> initialize i r b = (Inr (Some h), i, r)"
  by (simp add: initialize_def initialize_begin_set)

lemma initialize_boots:
  assumes "boots i"
  shows "fst (initialize i r b) = (if b then Inr (Some (length (engines r))) else Inl EngineBootFailure)
       \<and> fst (snd (initialize i r b)) = i\<lparr>db := Some (length (engines r))\<rparr>
       \<and> engines (snd (snd (initialize i r b)))
            = engines r @ [if b then Ready else BootFailed]"
proof -
  obtain r1 where b: "initialize_begin i r = (Awaiting (length (engines r)), i\<lparr>db := Some (length (engines r))\<rparr>, r1)"
    and e: "engines r1 = engines r @ [Booting]"
    using initialize_begin_boots [OF assms, of r] by blast
  show ?thesis
    by (simp add: initialize_def b initialize_resume_def waitReady_settles_def emit_def e)
qed

text \<open>
  C4, as amended. When the first \<^verbatim>\<open>initialize()\<close> of an instance fails (the ready signal
  rejects), the error is thrown to the caller, and the handle that was assigned before the
  \<^verbatim>\<open>await\<close> stays in \<^verbatim>\<open>this.db\<close>: every later \<^verbatim>\<open>initialize()\<close> returns that handle at
  once and changes nothing, so no boot is attempted again.
\<close>

theorem boot_failure_keeps_handle:
  assumes "boots i"
  shows "fst (initialize i r False) = Inl EngineBootFailure
       \<and> db (fst (snd (initialize i r False))) = Some (length (engines r))
       \<and> (\<forall>r' b. initialize (fst (snd (initialize i r False))) r' b
             = (Inr (Some (length (engines r))), fst (snd (initialize i r False)), r'))"
proof -
  let ?i1 = "fst (snd (initialize i r False))"
  have i1: "?i1 = i\<lparr>db := Some (length (engines r))\<rparr>" using initialize_boots [OF assms, of r False] by simp
  then have d: "db ?i1 = Some (length (engines r))" by simp
  have "fst (initialize i r False) = Inl EngineBootFailure"
    using initialize_boots [OF assms, of r False] by simp
  moreover have "\<forall>r' b. initialize ?i1 r' b = (Inr (Some (length (engines r))), ?i1, r')"
    using initialize_set [OF d] by simp
  ultimately show ?thesis using d by simp
qed

theorem boot_failure_keeps_handle_witness:
  "fst (initialize inst_a runtime0 False) = Inl EngineBootFailure
   \<and> db (fst (snd (initialize inst_a runtime0 False))) = Some 0"
proof -
  have b: "boots inst_a" by (simp add: boots_def inst_a_def ManagedInstance_def)
  show ?thesis using boot_failure_keeps_handle [OF b, of runtime0] by (simp add: runtime0_def)
qed

text \<open>
  The claim as stated fails on the in-memory instance a: after the failed boot the handle is
  present, and the next call returns it although the only engine ever constructed has failed.
\<close>

theorem boot_failure_counterexample:
  "fst (initialize inst_a runtime0 False) = Inl EngineBootFailure
   \<and> db (fst (snd (initialize inst_a runtime0 False))) \<noteq> None
   \<and> fst (initialize (fst (snd (initialize inst_a runtime0 False)))
             (snd (snd (initialize inst_a runtime0 False))) True) = Inr (Some 0)
   \<and> engines (snd (snd (initialize (fst (snd (initialize inst_a runtime0 False)))
             (snd (snd (initialize inst_a runtime0 False))) True))) = [BootFailed]"
  by (simp add: initialize_def initialize_begin_def inst_a_def ManagedInstance_def runtime0_def
      new_PGlite_def initialize_resume_def waitReady_settles_def emit_def)

text \<open>
  C5, as amended. \<^verbatim>\<open>initialize()\<close> on an instance that has a handle returns that handle and
  changes neither the instance nor anything around it; after a first call that completed, exactly
  one engine has been constructed and every later call returns the same handle. A call made
  while the first boot is still in flight constructs no second engine either, but it does not
  wait for the boot: it returns the handle assigned by the first call at once.
\<close>

theorem initialize_idempotent_not_single_flight:
  "(db i = Some h \<longrightarrow> initialize i r b = (Inr (Some h), i, r))
   \<and> (boots i \<longrightarrow>
        fst (initialize i r True) = Inr (Some (length (engines r)))
        \<and> length (engines (snd (snd (initialize i r True)))) = length (engines r) + 1
        \<and> (\<forall>r' b'. initialize (fst (snd (initialize i r True))) r' b'
              = (Inr (Some (length (engines r))), fst (snd (initialize i r True)), r')))
   \<and> (boots i \<longrightarrow>
        fst (initialize_begin i r) = Awaiting (length (engines r))
        \<and> engines (snd (snd (initialize_begin i r))) = engines r @ [Booting]
        \<and> initialize_begin (fst (snd (initialize_begin i r))) (snd (snd (initialize_begin i r)))
            = (Returned (length (engines r)), fst (snd (initialize_begin i r)),
               snd (snd (initialize_begin i r))))"
proof (intro conjI impI)
  show "db i = Some h \<Longrightarrow> initialize i r b = (Inr (Some h), i, r)" by (rule initialize_set)
next
  assume b: "boots i"
  show "fst (initialize i r True) = Inr (Some (length (engines r)))"
    using initialize_boots [OF b, of r True] by simp
  show "length (engines (snd (snd (initialize i r True)))) = length (engines r) + 1"
    using initialize_boots [OF b, of r True] by simp
  have d: "db (fst (snd (initialize i r True))) = Some (length (engines r))"
    using initialize_boots [OF b, of r True] by simp
  show "\<forall>r' b'. initialize (fst (snd (initialize i r True))) r' b'
              = (Inr (Some (length (engines r))), fst (snd (initialize i r True)), r')"
    using initialize_set [OF d] by simp
next
  assume b: "boots i"
  obtain r1 where e: "initialize_begin i r = (Awaiting (length (engines r)), i\<lparr>db := Some (length (engines r))\<rparr>, r1)"
    and g: "engines r1 = engines r @ [Booting]"
    using initialize_begin_boots [OF b, of r] by blast
  show "fst (initialize_begin i r) = Awaiting (length (engines r))" using e by simp
  show "engines (snd (snd (initialize_begin i r))) = engines r @ [Booting]" using e g by simp
  show "initialize_begin (fst (snd (initialize_begin i r))) (snd (snd (initialize_begin i r)))
            = (Returned (length (engines r)), fst (snd (initialize_begin i r)),
               snd (snd (initialize_begin i r)))"
    using e by (simp add: initialize_begin_set)
qed


theorem initialize_idempotent_not_single_flight_witness:
  "initialize (fst (snd (initialize inst_a runtime0 True))) runtime0 False
     = (Inr (Some 0), fst (snd (initialize inst_a runtime0 True)), runtime0)
   \<and> fst (initialize inst_a runtime0 True) = Inr (Some 0)
   \<and> fst (initialize_begin inst_a runtime0) = Awaiting 0"
proof -
  have b: "boots inst_a" by (simp add: boots_def inst_a_def ManagedInstance_def)
  have e: "length (engines runtime0) = 0" by (simp add: runtime0_def)
  have d: "db (fst (snd (initialize inst_a runtime0 True))) = Some 0"
    using initialize_boots [OF b, of runtime0 True] e by simp
  note t1 = initialize_idempotent_not_single_flight
    [of "fst (snd (initialize inst_a runtime0 True))" 0 runtime0 False]
  note t2 = initialize_idempotent_not_single_flight [of inst_a 0 runtime0 False]
  have "initialize (fst (snd (initialize inst_a runtime0 True))) runtime0 False
     = (Inr (Some 0), fst (snd (initialize inst_a runtime0 True)), runtime0)"
    using t1 d by blast
  moreover have "fst (initialize inst_a runtime0 True) = Inr (Some (length (engines runtime0)))"
    using t2 b by blast
  moreover have "fst (initialize_begin inst_a runtime0) = Awaiting (length (engines runtime0))"
    using t2 b by blast
  ultimately show ?thesis using e by simp
qed

text \<open>
  The claim as stated fails on the in-memory instance a: the second of two overlapping calls is
  handed handle 0 while engine 0 is still booting.
\<close>

theorem single_flight_counterexample:
  "fst (initialize_begin inst_a runtime0) = Awaiting 0
   \<and> fst (initialize_begin (fst (snd (initialize_begin inst_a runtime0)))
            (snd (snd (initialize_begin inst_a runtime0)))) = Returned 0
   \<and> engines (snd (snd (initialize_begin inst_a runtime0))) ! 0 = Booting"
  by (simp add: initialize_begin_def inst_a_def ManagedInstance_def runtime0_def new_PGlite_def)

section \<open>Properties of the pool\<close>

lemma length_update_present:
  "map_of al k = Some v \<Longrightarrow> length (AList.update k w al) = length al"
proof -
  assume "map_of al k = Some v"
  then have "k \<in> set (map fst al)" by (metis map_of_eq_None_iff option.distinct(1) set_map)
  then have "map fst (AList.update k w al) = map fst al" by (simp add: update_keys)
  then show ?thesis by (metis length_map)
qed

lemma length_delete_present:
  "map_of al k = Some v \<Longrightarrow> length (AList.delete k al) < length al"
  by (induction al) (auto simp add: less_Suc_eq_le length_delete_le split: if_splits)

lemma initialize_stored_pool:
  "snd (initialize_stored p r name inst b) = (p1, r1) \<Longrightarrow>
     instances p1 = AList.update name (fst (snd (initialize inst r b))) (instances p)
     \<and> maxInstances p1 = maxInstances p \<and> autoProvision p1 = autoProvision p
     \<and> baseDir p1 = baseDir p \<and> poolMemoryMode p1 = poolMemoryMode p"
  by (auto simp add: initialize_stored_def Let_def split: prod.splits sum.splits)

lemma getOrCreate_size:
  assumes "length (instances p) \<le> maxInstances p"
  shows "length (instances (fst (snd (getOrCreate p r name b)))) \<le> maxInstances p
       \<and> maxInstances (fst (snd (getOrCreate p r name b))) = maxInstances p"
proof (cases "map_of (instances p) name")
  case (Some inst)
  obtain p1 r1 where s: "snd (initialize_stored p r name inst b) = (p1, r1)" by fastforce
  have g: "snd (getOrCreate p r name b) = (p1, r1)" using Some s by (simp add: getOrCreate_def)
  show ?thesis using initialize_stored_pool [OF s] length_update_present [OF Some] assms g by simp
next
  case None
  show ?thesis
  proof (cases "length (instances p) \<ge> maxInstances p \<or> \<not> autoProvision p")
    case True
    then show ?thesis using None assms by (auto simp add: getOrCreate_def)
  next
    case False
    define inst where "inst = ManagedInstance name
        (if poolMemoryMode p then None else Some (path_join (baseDir p) name)) (poolMemoryMode p) r"
    define p0 where "p0 = p\<lparr>instances := instances p @ [(name, inst)]\<rparr>"
    obtain p1 r1 where s: "snd (initialize_stored p0 r name inst b) = (p1, r1)" by fastforce
    have g: "snd (getOrCreate p r name b) = (p1, r1)"
      using None False s by (simp add: getOrCreate_def Let_def inst_def p0_def)
    have m: "map_of (instances p0) name = Some inst" using None by (simp add: p0_def map_add_def)
    have "length (instances p1) = length (instances p0)"
      using initialize_stored_pool [OF s] length_update_present [OF m] by simp
    then show ?thesis using initialize_stored_pool [OF s] False g by (simp add: p0_def)
  qed
qed

lemma closeInstance_size:
  "length (instances (fst (closeInstance p r name))) \<le> length (instances p)
   \<and> maxInstances (fst (closeInstance p r name)) = maxInstances p"
  by (auto simp add: closeInstance_def Let_def length_delete_le split: option.splits prod.splits)

lemma closeAll_size:
  "length (instances (fst (closeAll p r))) = 0 \<and> maxInstances (fst (closeAll p r)) = maxInstances p"
  by (simp add: closeAll_def Let_def)

lemma pool_step_size:
  assumes "length (instances (fst s)) \<le> maxInstances (fst s)"
  shows "length (instances (fst (pool_step op s))) \<le> maxInstances (fst s)
       \<and> maxInstances (fst (pool_step op s)) = maxInstances (fst s)"
proof (cases s)
  case (Pair p r)
  show ?thesis
  proof (cases op)
    case (GetOrCreate name b)
    then show ?thesis using getOrCreate_size [of p r name b] assms Pair by simp
  next
    case (CloseInstance name)
    then show ?thesis using closeInstance_size [of p r name] assms Pair by simp
  next
    case CloseAll
    then show ?thesis using closeAll_size [of p r] Pair by simp
  qed
qed

lemma pool_run_size:
  "length (instances (fst s)) \<le> maxInstances (fst s) \<Longrightarrow>
     length (instances (fst (pool_run ops s))) \<le> maxInstances (fst s)
     \<and> maxInstances (fst (pool_run ops s)) = maxInstances (fst s)"
proof (induction ops arbitrary: s)
  case Nil
  then show ?case by (simp add: pool_run_def)
next
  case (Cons op ops)
  have st: "length (instances (fst (pool_step op s))) \<le> maxInstances (fst (pool_step op s))"
    and mx: "maxInstances (fst (pool_step op s)) = maxInstances (fst s)"
    using pool_step_size [OF Cons.prems, of op] by simp_all
  have r: "pool_run (op # ops) s = pool_run ops (pool_step op s)" by (simp add: pool_run_def)
  show ?case using Cons.IH [OF st] mx r by simp
qed

lemma getOrCreate_full:
  "map_of (instances p) name = None \<Longrightarrow> length (instances p) \<ge> maxInstances p \<Longrightarrow>
     getOrCreate p r name b = (Inl CapacityExceeded, p, r)"
  by (simp add: getOrCreate_def)

lemma initialize_new_ok:
  "\<exists>h i1 r1. initialize (ManagedInstance name
        (if m then None else Some d) m r) r True = (Inr h, i1, r1)"
  by (cases m)
     (simp_all add: ManagedInstance_def initialize_def initialize_begin_def new_PGlite_def
        initialize_resume_def Let_def split: prod.splits)

lemma getOrCreate_new_succeeds:
  assumes "map_of (instances p) name = None" "length (instances p) < maxInstances p" "autoProvision p"
  shows "succeeds (getOrCreate p r name True)"
proof -
  define inst where "inst = ManagedInstance name
        (if poolMemoryMode p then None else Some (path_join (baseDir p) name)) (poolMemoryMode p) r"
  obtain h i1 r1 where i: "initialize inst r True = (Inr h, i1, r1)"
    using initialize_new_ok [of name "poolMemoryMode p" "path_join (baseDir p) name" r]
    unfolding inst_def by blast
  have "getOrCreate p r name True
      = initialize_stored (p\<lparr>instances := instances p @ [(name, inst)]\<rparr>) r name inst True"
    using assms by (simp add: getOrCreate_def Let_def inst_def)
  then show ?thesis by (simp add: succeeds_def initialize_stored_def i)
qed

lemma initialize_errors:
  "fst (initialize i r b) = Inl e \<Longrightarrow> e = EngineBootFailure \<or> e = InvalidPath"
  by (auto simp add: initialize_def initialize_begin_def initialize_resume_def new_PGlite_def Let_def
      split: option.splits if_splits prod.splits)

lemma initialize_stored_errors:
  "fst (initialize_stored p r name inst b) = Inl e \<Longrightarrow> e = EngineBootFailure \<or> e = InvalidPath"
proof -
  assume a: "fst (initialize_stored p r name inst b) = Inl e"
  obtain res i1 r1 where i: "initialize inst r b = (res, i1, r1)" by (cases "initialize inst r b") auto
  have "res = Inl e" using a i by (cases res) (simp_all add: initialize_stored_def)
  then show ?thesis using initialize_errors [of inst r b e] i by simp
qed

lemma getOrCreate_capacity_iff:
  "(fst (getOrCreate p r name b) = Inl CapacityExceeded)
     = (map_of (instances p) name = None \<and> length (instances p) \<ge> maxInstances p)"
proof (cases "map_of (instances p) name")
  case (Some inst)
  then show ?thesis using initialize_stored_errors [of p r name inst b CapacityExceeded]
    by (auto simp add: getOrCreate_def)
next
  case None
  show ?thesis
  proof (cases "length (instances p) \<ge> maxInstances p")
    case True
    then show ?thesis using None by (simp add: getOrCreate_def)
  next
    case False
    show ?thesis
    proof (cases "autoProvision p")
      case False
      then show ?thesis using None \<open>\<not> maxInstances p \<le> length (instances p)\<close>
        by (simp add: getOrCreate_def)
    next
      case True
      then show ?thesis
        using None False
          initialize_stored_errors [of "p\<lparr>instances := instances p @ [(name, ManagedInstance name
            (if poolMemoryMode p then None else Some (path_join (baseDir p) name)) (poolMemoryMode p) r)]\<rparr>"
            r name "ManagedInstance name
            (if poolMemoryMode p then None else Some (path_join (baseDir p) name)) (poolMemoryMode p) r"
            b CapacityExceeded]
        by (auto simp add: getOrCreate_def Let_def)
    qed
  qed
qed

lemma scenario_1_eval:
  "instances (fst scenario_1) =
     [(''a'', \<lparr>dbName = ''a'', dataDir = Some ''./data/a'', memoryMode = False, db = Some 0,
        locked = False, activeSocket = None, queue = [], createdAt = 0, lastAccess = 0\<rparr>)]"
  "maxInstances (fst scenario_1) = 1" "autoProvision (fst scenario_1)"
  by (simp_all add: scenario_1_def pool_one_def InstancePool_def js_or_def truthy_number_def
      truthy_string_def truthy_bool_def getOrCreate_def initialize_stored_def initialize_def
      initialize_begin_def new_PGlite_def initialize_resume_def waitReady_settles_def emit_def
      ManagedInstance_def runtime0_def path_join_def Let_def)

text \<open>
  C8. The number of instances never exceeds \<open>maxInstances\<close>: not in any pool reached from the
  constructor by any sequence of \<^verbatim>\<open>getOrCreate\<close>, \<^verbatim>\<open>closeInstance\<close> and \<^verbatim>\<open>closeAll\<close>,
  and the bound is kept by every sequence from any pool that satisfies it. \<^verbatim>\<open>getOrCreate\<close> of
  an absent name on a full pool fails with the capacity error and leaves pool and runtime as
  they were, so nothing was constructed. After \<^verbatim>\<open>closeInstance\<close> has removed an instance,
  \<^verbatim>\<open>getOrCreate\<close> of a new name is not refused for capacity, and succeeds when
  auto-provisioning is on and the engine boots. The capacity error is thrown in no other case
  than an absent name on a full pool.
\<close>

theorem pool_capacity:
  "(\<forall>ops r. length (instances (fst (pool_run ops (InstancePool options, r))))
        \<le> maxInstances (fst (pool_run ops (InstancePool options, r))))
   \<and> (\<forall>ops s. length (instances (fst s)) \<le> maxInstances (fst s) \<longrightarrow>
        length (instances (fst (pool_run ops s))) \<le> maxInstances (fst (pool_run ops s)))
   \<and> (map_of (instances p) name = None \<and> length (instances p) \<ge> maxInstances p \<longrightarrow>
        getOrCreate p r name b = (Inl CapacityExceeded, p, r))
   \<and> (map_of (instances p) old = Some inst \<and> length (instances p) \<le> maxInstances p
        \<and> autoProvision p \<and> map_of (instances p) name = None \<longrightarrow>
        succeeds (getOrCreate (fst (closeInstance p r old)) (snd (closeInstance p r old)) name True))
   \<and> (map_of (instances p) old = Some inst \<and> length (instances p) \<le> maxInstances p \<longrightarrow>
        fst (getOrCreate (fst (closeInstance p r old)) (snd (closeInstance p r old)) name b)
          \<noteq> Inl CapacityExceeded)
   \<and> ((fst (getOrCreate p r name b) = Inl CapacityExceeded)
        = (map_of (instances p) name = None \<and> length (instances p) \<ge> maxInstances p))"
proof (intro conjI allI impI)
  fix ops and r :: runtime
  have "length (instances (fst (InstancePool options, r))) \<le> maxInstances (fst (InstancePool options, r))"
    by (simp add: InstancePool_def)
  from pool_run_size [OF this, of ops]
  show "length (instances (fst (pool_run ops (InstancePool options, r))))
        \<le> maxInstances (fst (pool_run ops (InstancePool options, r)))" by simp
next
  fix ops and s :: "instance_pool \<times> runtime" assume "length (instances (fst s)) \<le> maxInstances (fst s)"
  from pool_run_size [OF this, of ops]
  show "length (instances (fst (pool_run ops s))) \<le> maxInstances (fst (pool_run ops s))" by simp
next
  assume "map_of (instances p) name = None \<and> length (instances p) \<ge> maxInstances p"
  then show "getOrCreate p r name b = (Inl CapacityExceeded, p, r)" by (simp add: getOrCreate_full)
next
  assume a: "map_of (instances p) old = Some inst \<and> length (instances p) \<le> maxInstances p
        \<and> autoProvision p \<and> map_of (instances p) name = None"
  obtain i1 r1 where c: "close inst r = (i1, r1)" by fastforce
  have ci: "closeInstance p r old = (p\<lparr>instances := AList.delete old (instances p)\<rparr>, r1)"
    using a c by (simp add: closeInstance_def)
  have l: "length (AList.delete old (instances p)) < maxInstances p"
    using a length_delete_present [of "instances p" old inst] by simp
  have n: "map_of (AList.delete old (instances p)) name = None"
    using a by (simp add: delete_conv')
  show "succeeds (getOrCreate (fst (closeInstance p r old)) (snd (closeInstance p r old)) name True)"
    using getOrCreate_new_succeeds [of "p\<lparr>instances := AList.delete old (instances p)\<rparr>" name r1] a l n ci
    by simp
next
  assume a: "map_of (instances p) old = Some inst \<and> length (instances p) \<le> maxInstances p"
  obtain i1 r1 where c: "close inst r = (i1, r1)" by fastforce
  have ci: "closeInstance p r old = (p\<lparr>instances := AList.delete old (instances p)\<rparr>, r1)"
    using a c by (simp add: closeInstance_def)
  have l: "length (AList.delete old (instances p)) < maxInstances p"
    using a length_delete_present [of "instances p" old inst] by simp
  show "fst (getOrCreate (fst (closeInstance p r old)) (snd (closeInstance p r old)) name b)
          \<noteq> Inl CapacityExceeded"
    using l by (simp add: ci getOrCreate_capacity_iff)
next
  show "(fst (getOrCreate p r name b) = Inl CapacityExceeded)
        = (map_of (instances p) name = None \<and> length (instances p) \<ge> maxInstances p)"
    by (rule getOrCreate_capacity_iff)
qed


text \<open>The scenario with \<open>maxInstances = 1\<close> and the names a and b.\<close>

theorem pool_capacity_witness:
  "succeeds (getOrCreate pool_one runtime0 ''a'' True)
   \<and> length (instances (fst (pool_run [GetOrCreate ''a'' True, GetOrCreate ''b'' True] (pool_one, runtime0)))) \<le> 1
   \<and> getOrCreate (fst scenario_1) (snd scenario_1) ''b'' True
        = (Inl CapacityExceeded, fst scenario_1, snd scenario_1)
   \<and> succeeds (getOrCreate (fst (closeInstance (fst scenario_1) (snd scenario_1) ''a''))
         (snd (closeInstance (fst scenario_1) (snd scenario_1) ''a'')) ''b'' True)"
proof -
  have a: "succeeds (getOrCreate pool_one runtime0 ''a'' True)"
    by (simp add: succeeds_def pool_one_def InstancePool_def js_or_def truthy_number_def
      truthy_string_def truthy_bool_def getOrCreate_def initialize_stored_def initialize_def
      initialize_begin_def new_PGlite_def initialize_resume_def waitReady_settles_def emit_def
      ManagedInstance_def runtime0_def path_join_def Let_def)
  have m: "maxInstances (fst (pool_run [GetOrCreate ''a'' True, GetOrCreate ''b'' True] (pool_one, runtime0))) = 1"
    using pool_run_size [of "(pool_one, runtime0)" "[GetOrCreate ''a'' True, GetOrCreate ''b'' True]"]
    by (simp add: pool_one_def InstancePool_def js_or_def truthy_number_def)
  have h3: "map_of (instances (fst scenario_1)) ''b'' = None
      \<and> length (instances (fst scenario_1)) \<ge> maxInstances (fst scenario_1)"
    by (simp add: scenario_1_eval)
  have h4: "map_of (instances (fst scenario_1)) ''a'' = Some (snd (hd (instances (fst scenario_1))))
      \<and> length (instances (fst scenario_1)) \<le> maxInstances (fst scenario_1)
      \<and> autoProvision (fst scenario_1) \<and> map_of (instances (fst scenario_1)) ''b'' = None"
    by (simp add: scenario_1_eval)
  note t = pool_capacity [of "\<lparr>opt_baseDir = None, opt_memoryMode = None, opt_maxInstances = Some 1,
                opt_autoProvision = None\<rparr>" "fst scenario_1" "''b''" "snd scenario_1" True "''a''"
                "snd (hd (instances (fst scenario_1)))"]
  have b: "length (instances (fst (pool_run [GetOrCreate ''a'' True, GetOrCreate ''b'' True] (pool_one, runtime0))))
      \<le> maxInstances (fst (pool_run [GetOrCreate ''a'' True, GetOrCreate ''b'' True] (pool_one, runtime0)))"
    using t unfolding pool_one_def by blast
  have c: "getOrCreate (fst scenario_1) (snd scenario_1) ''b'' True
        = (Inl CapacityExceeded, fst scenario_1, snd scenario_1)"
    using t h3 by blast
  have d: "succeeds (getOrCreate (fst (closeInstance (fst scenario_1) (snd scenario_1) ''a''))
         (snd (closeInstance (fst scenario_1) (snd scenario_1) ''a'')) ''b'' True)"
    using t h4 by blast
  show ?thesis using a b c d m by simp
qed

section \<open>Properties of the lock\<close>

text \<open>The equations that evaluate a run on the in-memory instance a.\<close>

lemmas run_simps = run_def inst_a_def ManagedInstance_def runtime0_def acquire_enter_def
  acquire_finish_def lock_def unlock_def unlock_state_def emit_def waitForFree_def await_promise_def
  timeout_callback_def invoke_def settle_def clearTimeout_def acquire_resume_def Let_def

lemma settle_frame [simp]:
  "trace (settle n st r) = trace r" "fresh (settle n st r) = fresh r"
  "timers (settle n st r) = timers r" "once_close (settle n st r) = once_close r"
  "once_error (settle n st r) = once_error r" "awaiting (settle n st r) = awaiting r"
  "now (settle n st r) = now r"
  by (simp_all add: settle_def)

lemma clearTimeout_frame [simp]:
  "trace (clearTimeout n r) = trace r" "fresh (clearTimeout n r) = fresh r"
  "promises (clearTimeout n r) = promises r" "microtasks (clearTimeout n r) = microtasks r"
  "once_close (clearTimeout n r) = once_close r" "once_error (clearTimeout n r) = once_error r"
  "awaiting (clearTimeout n r) = awaiting r" "now (clearTimeout n r) = now r"
  by (simp_all add: clearTimeout_def)

lemma emit_frame [simp]:
  "trace (emit ev name r) = trace r @ [Emitted ev name]" "fresh (emit ev name r) = fresh r"
  "promises (emit ev name r) = promises r" "microtasks (emit ev name r) = microtasks r"
  "timers (emit ev name r) = timers r"
  "once_close (emit ev name r) = once_close r" "once_error (emit ev name r) = once_error r"
  "awaiting (emit ev name r) = awaiting r" "now (emit ev name r) = now r"
  by (simp_all add: emit_def)

lemma invoke_frame [simp]:
  "trace (invoke f a r) = trace r" "fresh (invoke f a r) = fresh r"
  "once_close (invoke f a r) = once_close r" "once_error (invoke f a r) = once_error r"
  "awaiting (invoke f a r) = awaiting r" "now (invoke f a r) = now r"
  by (simp_all add: invoke_def split: fn.splits)




lemma extendsI:
  "trace r' = tr @ ys \<Longrightarrow> replay h ys = Some (locked i') \<Longrightarrow> extends h tr (i', r')"
  by (simp add: extends_def)


lemma lock_Inr:
  "lock i r sock = Inr (i', r') \<Longrightarrow>
     \<not> locked i \<and> locked i' \<and> activeSocket i' = Some sock \<and> queue i' = queue i
     \<and> dbName i' = dbName i
     \<and> trace r' = trace r @ [Emitted Ev_locked (dbName i)]
     \<and> once_close r' = (once_close r)(sock := once_close r sock + 1)
     \<and> once_error r' = (once_error r)(sock := once_error r sock + 1)"
  by (auto simp add: lock_def split: if_splits)




lemma unlock_effect:
  "locked (fst (unlock i r)) = False \<and> activeSocket (fst (unlock i r)) = None
   \<and> dbName (fst (unlock i r)) = dbName i
   \<and> trace (snd (unlock i r)) = trace r @ [Emitted Ev_unlocked (dbName i)]
   \<and> once_close (snd (unlock i r)) = once_close r \<and> once_error (snd (unlock i r)) = once_error r"
  by (simp add: unlock_def Let_def split: list.splits)

















section \<open>Properties of the release on socket notifications\<close>

lemma unlock_count_append: "unlock_count (xs @ ys) = unlock_count xs + unlock_count ys"
  by (induction xs rule: unlock_count.induct) simp_all

lemma unlocks_count:
  "unlock_count (trace (snd ((unlock_state ^^ k) s))) = unlock_count (trace (snd s)) + k
   \<and> once_close (snd ((unlock_state ^^ k) s)) = once_close (snd s)
   \<and> once_error (snd ((unlock_state ^^ k) s)) = once_error (snd s)"
proof (induction k)
  case 0
  then show ?case by simp
next
  case (Suc k)
  let ?s = "(unlock_state ^^ k) s"
  have st: "(unlock_state ^^ Suc k) s = unlock (fst ?s) (snd ?s)"
    using unlock_state_def [of ?s] by simp
  show ?case unfolding st using Suc unlock_effect [of "fst ?s" "snd ?s"]
    by (simp add: unlock_count_append)
qed

lemma emits_close:
  "unlock_count (trace (snd (step (SocketEmits sock OnClose) (i, r))))
     = unlock_count (trace r) + once_close r sock
   \<and> once_close (snd (step (SocketEmits sock OnClose) (i, r))) = (once_close r)(sock := 0)
   \<and> once_error (snd (step (SocketEmits sock OnClose) (i, r))) = once_error r"
  using unlocks_count [of "once_close r sock" "(i, r\<lparr>once_close := (once_close r)(sock := 0)\<rparr>)"]
  by simp

lemma emits_error:
  "unlock_count (trace (snd (step (SocketEmits sock OnError) (i, r))))
     = unlock_count (trace r) + once_error r sock
   \<and> once_error (snd (step (SocketEmits sock OnError) (i, r))) = (once_error r)(sock := 0)
   \<and> once_close (snd (step (SocketEmits sock OnError) (i, r))) = once_close r"
  using unlocks_count [of "once_error r sock" "(i, r\<lparr>once_error := (once_error r)(sock := 0)\<rparr>)"]
  by simp

lemma emits_close_s:
  "unlock_count (trace (snd (step (SocketEmits sock OnClose) s)))
     = unlock_count (trace (snd s)) + once_close (snd s) sock
   \<and> once_close (snd (step (SocketEmits sock OnClose) s)) = (once_close (snd s))(sock := 0)
   \<and> once_error (snd (step (SocketEmits sock OnClose) s)) = once_error (snd s)"
  using emits_close [of sock "fst s" "snd s"] by simp

lemma emits_error_s:
  "unlock_count (trace (snd (step (SocketEmits sock OnError) s)))
     = unlock_count (trace (snd s)) + once_error (snd s) sock
   \<and> once_error (snd (step (SocketEmits sock OnError) s)) = (once_error (snd s))(sock := 0)
   \<and> once_close (snd (step (SocketEmits sock OnError) s)) = once_close (snd s)"
  using emits_error [of sock "fst s" "snd s"] by simp

text \<open>
  What the notifications of a socket release. \<^verbatim>\<open>lock\<close> registers \<^verbatim>\<open>unlock\<close> once for
  \<^verbatim>\<open>'close'\<close> and once for \<^verbatim>\<open>'error'\<close>, and nothing else guards the release: for a holder
  locked on a socket with no listeners yet, \<^verbatim>\<open>unlock\<close> is executed once per kind of
  notification that fires, so once when only \<^verbatim>\<open>'close'\<close> or only \<^verbatim>\<open>'error'\<close> fires,
  however often, and twice when both fire, in either order.
\<close>

lemma release_once_per_notification:
  assumes "lock i r sock = Inr s" "once_close r sock = 0" "once_error r sock = 0"
  shows "unlocks_by [SocketEmits sock OnClose] s = 1
       \<and> unlocks_by [SocketEmits sock OnError] s = 1
       \<and> unlocks_by [SocketEmits sock OnClose, SocketEmits sock OnClose] s = 1
       \<and> unlocks_by [SocketEmits sock OnError, SocketEmits sock OnError] s = 1
       \<and> unlocks_by [SocketEmits sock OnError, SocketEmits sock OnClose] s = 2
       \<and> unlocks_by [SocketEmits sock OnClose, SocketEmits sock OnError] s = 2"
proof -
  obtain i' r' where s: "s = (i', r')" by fastforce
  have c: "once_close (snd s) sock = 1" "once_error (snd s) sock = 1"
    using lock_Inr [of i r sock i' r'] assms s by simp_all
  show ?thesis
    using c by (simp add: unlocks_by_def run_def emits_close_s emits_error_s del: step.simps)
qed

text \<open>
  C3 on the code. The socket of holder 1 emits \<^verbatim>\<open>'error'\<close> and then \<^verbatim>\<open>'close'\<close>, as a
  socket does after an error: \<^verbatim>\<open>unlock\<close> is executed twice for the one holder. When the
  promoted waiter (socket 2) resumes between the two notifications, the second execution strips
  its lock, and socket 3 is granted the instance while socket 2 still is connected. When both
  fire before any continuation runs, the second execution promotes a second waiter, whose
  \<^verbatim>\<open>acquire\<close> then throws the already-locked error.
\<close>

theorem release_runs_twice:
  "unlock_count (trace (snd (run [Acquire 1 5000, SocketEmits 1 OnError, SocketEmits 1 OnClose]
       (inst_a, runtime0)))) = 2
   \<and> trace (snd (run [Acquire 1 5000, Acquire 2 5000, SocketEmits 1 OnError, Microtask,
       SocketEmits 1 OnClose, Acquire 3 5000] (inst_a, runtime0)))
     = [Emitted Ev_locked ''a'', Granted None 1, Queued 0 2,
        Emitted Ev_unlocked ''a'', Emitted Ev_locked ''a'', Granted (Some 0) 2,
        Emitted Ev_unlocked ''a'', Emitted Ev_locked ''a'', Granted None 3]
   \<and> trace (snd (run [Acquire 1 5000, Acquire 2 5000, Acquire 3 5000, SocketEmits 1 OnError,
       SocketEmits 1 OnClose, Microtask, Microtask] (inst_a, runtime0)))
     = [Emitted Ev_locked ''a'', Granted None 1, Queued 0 2, Queued 1 3,
        Emitted Ev_unlocked ''a'', Emitted Ev_unlocked ''a'',
        Emitted Ev_locked ''a'', Granted (Some 0) 2, Refused (Some 1) 3 (Err AlreadyLocked)]"
  by (simp add: run_simps)

section \<open>Properties of the wait queue\<close>

lemma waits_granted_append: "waits_granted (xs @ ys) = waits_granted xs @ waits_granted ys"
  by (induction xs rule: waits_granted.induct) simp_all

lemma waits_queued_append: "waits_queued (xs @ ys) = waits_queued xs @ waits_queued ys"
  by (induction xs rule: waits_queued.induct) simp_all

lemma settle_promises:
  "promises (settle n st r) = (if promises r n = Pending then (promises r)(n := st) else promises r)"
  by (simp add: settle_def)

lemma settle_microtasks:
  "microtasks (settle n st r)
     = (if promises r n = Pending \<and> awaiting r n \<noteq> None then microtasks r @ [n] else microtasks r)"
  by (simp add: settle_def)

lemma filter_fulfilled_upd:
  assumes "promises r n = Pending" "\<forall>m \<in> set ms. promises r m \<noteq> Pending"
  shows "filter (\<lambda>m. ((promises r)(n := st)) m = Fulfilled) ms = filter (\<lambda>m. promises r m = Fulfilled) ms"
proof (rule filter_cong [OF refl])
  fix m assume "m \<in> set ms"
  then have "m \<noteq> n" using assms by auto
  then show "(((promises r)(n := st)) m = Fulfilled) = (promises r m = Fulfilled)" by simp
qed

lemma settle_fulfilled:
  assumes "\<forall>m \<in> set (microtasks r). promises r m \<noteq> Pending"
  shows "fulfilled_tasks (settle n st r)
     = fulfilled_tasks r @ (if promises r n = Pending \<and> awaiting r n \<noteq> None \<and> st = Fulfilled then [n] else [])"
proof (cases "promises r n = Pending")
  case False
  then show ?thesis by (simp add: fulfilled_tasks_def settle_def)
next
  case True
  show ?thesis
    using True filter_fulfilled_upd [OF True assms, of st]
    by (simp add: fulfilled_tasks_def settle_promises settle_microtasks)
qed

lemma settle_tasks_settled:
  assumes "\<forall>m \<in> set (microtasks r). promises r m \<noteq> Pending \<and> m < fresh r" "st \<noteq> Pending" "n < fresh r"
  shows "\<forall>m \<in> set (microtasks (settle n st r)). promises (settle n st r) m \<noteq> Pending \<and> m < fresh (settle n st r)"
  using assms by (auto simp add: settle_promises settle_microtasks)

lemma fifo_inv_alt:
  "fifo_inv (i, r) =
     ((\<forall>item \<in> set (queue i). resolve item = ResolveWrapper (qid item))
      \<and> tasks_ok r
      \<and> sorted_wrt (<) (waits_granted (trace r) @ fulfilled_tasks r @ map qid (queue i))
      \<and> (\<forall>n \<in> set (waits_granted (trace r) @ fulfilled_tasks r @ map qid (queue i)). n < fresh r)
      \<and> sorted_wrt (<) (waits_queued (trace r))
      \<and> (\<forall>n \<in> set (waits_queued (trace r)). n < fresh r))"
  by (auto simp add: fifo_inv_def tasks_ok_def promotion_order_def)

lemma unlock_fifo:
  assumes "fifo_inv (i, r)"
  shows "fifo_inv (unlock i r)"
proof (cases "queue i")
  case Nil
  then have u: "unlock i r = (i\<lparr>locked := False, activeSocket := None, lastAccess := now r\<rparr>,
      emit Ev_unlocked (dbName i) r)"
    by (simp add: unlock_def Let_def)
  show ?thesis using assms unfolding u fifo_inv_alt
    by (simp add: tasks_ok_def fulfilled_tasks_def waits_granted_append waits_queued_append Nil)
next
  case (Cons item rest)
  let ?n = "qid item"
  let ?r1 = "clearTimeout ?n (emit Ev_unlocked (dbName i) r)"
  have w: "resolve item = ResolveWrapper ?n" using assms Cons by (simp add: fifo_inv_alt)
  have u: "unlock i r = (i\<lparr>locked := False, activeSocket := None, lastAccess := now r, queue := rest\<rparr>,
      settle ?n Fulfilled ?r1)"
    using w by (simp add: unlock_def Let_def Cons invoke_def)
  have t: "tasks_ok r" using assms by (simp add: fifo_inv_alt)
  have nf: "?n < fresh r" using assms Cons by (simp add: fifo_inv_alt)
  have m1: "\<forall>m \<in> set (microtasks ?r1). promises ?r1 m \<noteq> Pending \<and> m < fresh ?r1"
    using t by (simp add: tasks_ok_def)
  have m1': "\<forall>m \<in> set (microtasks ?r1). promises ?r1 m \<noteq> Pending" using m1 by blast
  have t2: "tasks_ok (settle ?n Fulfilled ?r1)"
    unfolding tasks_ok_def
  proof
    show "\<forall>m \<in> set (microtasks (settle ?n Fulfilled ?r1)).
        promises (settle ?n Fulfilled ?r1) m \<noteq> Pending \<and> m < fresh (settle ?n Fulfilled ?r1)"
      using settle_tasks_settled [OF m1, of Fulfilled ?n] nf by simp
    show "\<forall>m. timers (settle ?n Fulfilled ?r1) m \<noteq> None \<longrightarrow> m < fresh (settle ?n Fulfilled ?r1)"
      using t by (simp add: tasks_ok_def clearTimeout_def emit_def)
  qed
  have f1: "fulfilled_tasks ?r1 = fulfilled_tasks r" by (simp add: fulfilled_tasks_def)
  have f2: "fulfilled_tasks (settle ?n Fulfilled ?r1) = fulfilled_tasks r \<or>
      fulfilled_tasks (settle ?n Fulfilled ?r1) = fulfilled_tasks r @ [?n]"
    using settle_fulfilled [OF m1', of ?n Fulfilled] f1 by auto
  have old: "sorted_wrt (<) (waits_granted (trace r) @ fulfilled_tasks r @ ?n # map qid rest)"
      "\<forall>n \<in> set (waits_granted (trace r) @ fulfilled_tasks r @ ?n # map qid rest). n < fresh r"
      "\<forall>item \<in> set rest. resolve item = ResolveWrapper (qid item)"
      "sorted_wrt (<) (waits_queued (trace r))" "\<forall>n \<in> set (waits_queued (trace r)). n < fresh r"
    using assms Cons by (simp_all add: fifo_inv_alt)
  have new: "sorted_wrt (<) (waits_granted (trace r) @ fulfilled_tasks (settle ?n Fulfilled ?r1) @ map qid rest)
     \<and> (\<forall>n \<in> set (waits_granted (trace r) @ fulfilled_tasks (settle ?n Fulfilled ?r1) @ map qid rest). n < fresh r)"
    using f2 old(1,2) by (auto simp add: sorted_wrt_append)
  show ?thesis unfolding u fifo_inv_alt
    using new old(3,4,5) t2 by (simp add: waits_granted_append waits_queued_append)
qed


lemma unlocks_fifo: "fifo_inv s \<Longrightarrow> fifo_inv ((unlock_state ^^ k) s)"
proof (induction k)
  case 0
  then show ?case by simp
next
  case (Suc k)
  let ?s = "(unlock_state ^^ k) s"
  have st: "(unlock_state ^^ Suc k) s = unlock (fst ?s) (snd ?s)"
    using unlock_state_def [of ?s] by simp
  show ?case unfolding st using unlock_fifo [of "fst ?s" "snd ?s"] Suc by simp
qed

lemma findIndex_None: "\<forall>x \<in> set xs. \<not> P x \<Longrightarrow> findIndex P xs = None"
  by (induction xs) simp_all

lemma timeout_callback_queue:
  assumes "\<forall>item \<in> set (queue i). resolve item = ResolveWrapper (qid item)"
  shows "fst (timeout_callback n i r) = i"
proof -
  have "\<forall>item \<in> set (queue i). \<not> (resolve item = PromiseResolve n)" using assms by simp
  then have "findIndex (\<lambda>item. resolve item = PromiseResolve n) (queue i) = None"
    by (rule findIndex_None)
  then show ?thesis by (simp add: timeout_callback_def)
qed

lemma timer_fifo:
  assumes "fifo_inv (i, r)" "timers r n \<noteq> None"
  shows "fifo_inv (timeout_callback n i (clearTimeout n r))"
proof -
  let ?r1 = "clearTimeout n r"
  let ?r2 = "settle n (Rejected (Err Busy)) ?r1"
  have q: "\<forall>item \<in> set (queue i). resolve item = ResolveWrapper (qid item)"
    using assms(1) by (simp add: fifo_inv_alt)
  have u: "timeout_callback n i ?r1 = (i, ?r2)"
    using timeout_callback_queue [OF q, of n ?r1]
    by (simp add: timeout_callback_def invoke_def Let_def prod_eq_iff)
  have t: "tasks_ok r" using assms(1) by (simp add: fifo_inv_alt)
  have nf: "n < fresh r" using t assms(2) by (simp add: tasks_ok_def)
  have m1: "\<forall>m \<in> set (microtasks ?r1). promises ?r1 m \<noteq> Pending \<and> m < fresh ?r1"
    using t by (simp add: tasks_ok_def)
  have m1': "\<forall>m \<in> set (microtasks ?r1). promises ?r1 m \<noteq> Pending" using m1 by blast
  have t2: "tasks_ok ?r2"
    unfolding tasks_ok_def
  proof
    show "\<forall>m \<in> set (microtasks ?r2). promises ?r2 m \<noteq> Pending \<and> m < fresh ?r2"
      using settle_tasks_settled [OF m1, of "Rejected (Err Busy)" n] nf by simp
    show "\<forall>m. timers ?r2 m \<noteq> None \<longrightarrow> m < fresh ?r2"
      using t by (simp add: tasks_ok_def clearTimeout_def)
  qed
  have f: "fulfilled_tasks ?r2 = fulfilled_tasks r"
    using settle_fulfilled [OF m1', of n "Rejected (Err Busy)"] by (simp add: fulfilled_tasks_def)
  show ?thesis unfolding u using assms(1) t2 f by (simp add: fifo_inv_alt)
qed

lemma acquire_finish_None_fifo:
  assumes "fifo_inv (i, r)"
  shows "fifo_inv (acquire_finish None sock i r)"
proof (cases "locked i")
  case True
  then have u: "acquire_finish None sock i r = (i, r\<lparr>trace := trace r @ [Refused None sock (Err AlreadyLocked)]\<rparr>)"
    by (simp add: acquire_finish_def lock_def)
  show ?thesis unfolding u using assms
    by (simp add: fifo_inv_alt tasks_ok_def fulfilled_tasks_def waits_granted_append waits_queued_append)
next
  case False
  then have u: "acquire_finish None sock i r =
      (i\<lparr>locked := True, activeSocket := Some sock, lastAccess := now r\<rparr>,
       (emit Ev_locked (dbName i)
          (r\<lparr>once_close := (once_close r)(sock := once_close r sock + 1),
             once_error := (once_error r)(sock := once_error r sock + 1)\<rparr>))
         \<lparr>trace := trace r @ [Emitted Ev_locked (dbName i), Granted None sock]\<rparr>)"
    by (simp add: acquire_finish_def lock_def emit_def)
  show ?thesis unfolding u using assms
    by (simp add: fifo_inv_alt tasks_ok_def fulfilled_tasks_def waits_granted_append waits_queued_append emit_def)
qed

lemma acquire_enter_fifo:
  assumes "fifo_inv (i, r)"
  shows "fifo_inv (acquire_enter sock timeout i r)"
proof (cases "locked i")
  case False
  then show ?thesis using acquire_finish_None_fifo [OF assms] by (simp add: acquire_enter_def)
next
  case True
  let ?n = "fresh r"
  let ?i1 = "i\<lparr>queue := queue i @ [\<lparr>resolve = ResolveWrapper ?n, reject = PromiseReject ?n\<rparr>]\<rparr>"
  let ?r1 = "r\<lparr>fresh := ?n + 1, promises := (promises r)(?n := Pending),
                 timers := (timers r)(?n := Some (now r + timeout)),
                 awaiting := (awaiting r)(?n := Some sock),
                 trace := trace r @ [Queued ?n sock]\<rparr>"
  have u: "acquire_enter sock timeout i r = (?i1, ?r1)"
    using True by (simp add: acquire_enter_def waitForFree_def await_promise_def Let_def)
  have t: "tasks_ok r" using assms by (simp add: fifo_inv_alt)
  have mt: "\<forall>m \<in> set (microtasks r). m \<noteq> ?n" using t by (auto simp add: tasks_ok_def)
  have f: "fulfilled_tasks ?r1 = fulfilled_tasks r"
    unfolding fulfilled_tasks_def
    by (rule filter_cong) (use mt in auto)
  have t1: "tasks_ok ?r1" using t mt by (auto simp add: tasks_ok_def less_Suc_eq)
  have q1: "\<forall>item \<in> set (queue ?i1). resolve item = ResolveWrapper (qid item)"
    using assms by (auto simp add: fifo_inv_alt qid_def)
  have old: "sorted_wrt (<) (waits_granted (trace r) @ fulfilled_tasks r @ map qid (queue i))"
      "\<forall>n \<in> set (waits_granted (trace r) @ fulfilled_tasks r @ map qid (queue i)). n < fresh r"
      "sorted_wrt (<) (waits_queued (trace r))" "\<forall>n \<in> set (waits_queued (trace r)). n < fresh r"
    using assms by (simp_all add: fifo_inv_alt)
  have g: "waits_granted (trace ?r1) = waits_granted (trace r)"
    "waits_queued (trace ?r1) = waits_queued (trace r) @ [?n]"
    by (simp_all add: waits_granted_append waits_queued_append)
  have qm: "map qid (queue ?i1) = map qid (queue i) @ [?n]" by (simp add: qid_def)
  have s1: "sorted_wrt (<) (waits_granted (trace ?r1) @ fulfilled_tasks ?r1 @ map qid (queue ?i1))"
    unfolding g f qm using old(1,2) by (auto simp add: sorted_wrt_append)
  have s2: "\<forall>n \<in> set (waits_granted (trace ?r1) @ fulfilled_tasks ?r1 @ map qid (queue ?i1)). n < fresh ?r1"
    unfolding g f qm using old(2) by (auto simp add: less_Suc_eq)
  have s3: "sorted_wrt (<) (waits_queued (trace ?r1))"
    unfolding g using old(3,4) by (auto simp add: sorted_wrt_append)
  have s4: "\<forall>n \<in> set (waits_queued (trace ?r1)). n < fresh ?r1"
    unfolding g using old(4) by (auto simp add: less_Suc_eq)
  show ?thesis unfolding u fifo_inv_alt using q1 t1 s1 s2 s3 s4 by blast
qed

lemma microtask_fifo:
  assumes "fifo_inv (i, r)" "microtasks r = n # rest"
  shows "fifo_inv (acquire_resume n i (r\<lparr>microtasks := rest\<rparr>))"
proof -
  let ?r0 = "r\<lparr>microtasks := rest\<rparr>"
  have t: "tasks_ok r" using assms(1) by (simp add: fifo_inv_alt)
  have np: "promises r n \<noteq> Pending" using t assms(2) by (simp add: tasks_ok_def)
  have t0: "tasks_ok ?r0" using t assms(2) by (simp add: tasks_ok_def)
  have q: "\<forall>item \<in> set (queue i). resolve item = ResolveWrapper (qid item)"
    using assms(1) by (simp add: fifo_inv_alt)
  have old: "sorted_wrt (<) (waits_granted (trace r) @ fulfilled_tasks r @ map qid (queue i))"
      "\<forall>n \<in> set (waits_granted (trace r) @ fulfilled_tasks r @ map qid (queue i)). n < fresh r"
      "sorted_wrt (<) (waits_queued (trace r))" "\<forall>n \<in> set (waits_queued (trace r)). n < fresh r"
    using assms(1) by (simp_all add: fifo_inv_alt)
  have f: "fulfilled_tasks r = (if promises r n = Fulfilled then [n] else []) @ fulfilled_tasks ?r0"
    using assms(2) by (simp add: fulfilled_tasks_def)
  have drop: "fifo_inv (i, ?r0)"
    unfolding fifo_inv_alt using q t0 old f by (auto simp add: sorted_wrt_append)
  show ?thesis
  proof (cases "awaiting r n")
    case None
    then show ?thesis using drop by (simp add: acquire_resume_def)
  next
    case (Some sock)
    show ?thesis
    proof (cases "promises r n")
      case Pending
      then show ?thesis using np by simp
    next
      case (Rejected a)
      let ?r1 = "r\<lparr>microtasks := rest, awaiting := (awaiting r)(n := None),
                    trace := trace r @ [Refused (Some n) sock a]\<rparr>"
      have u: "acquire_resume n i ?r0 = (i, ?r1)" using Some Rejected by (simp add: acquire_resume_def)
      show ?thesis unfolding u using drop
        by (simp add: fifo_inv_alt tasks_ok_def fulfilled_tasks_def waits_granted_append waits_queued_append)
    next
      case Fulfilled
      let ?ra = "r\<lparr>microtasks := rest, awaiting := (awaiting r)(n := None)\<rparr>"
      have ua: "acquire_resume n i ?r0 = acquire_finish (Some n) sock i ?ra"
        using Some Fulfilled by (simp add: acquire_resume_def)
      show ?thesis
      proof (cases "locked i")
        case True
        then have u: "acquire_finish (Some n) sock i ?ra
            = (i, ?ra\<lparr>trace := trace r @ [Refused (Some n) sock (Err AlreadyLocked)]\<rparr>)"
          by (simp add: acquire_finish_def lock_def)
        show ?thesis unfolding ua u using drop
          by (simp add: fifo_inv_alt tasks_ok_def fulfilled_tasks_def waits_granted_append waits_queued_append)
      next
        case False
        let ?r2 = "(emit Ev_locked (dbName i)
              (?ra\<lparr>once_close := (once_close r)(sock := once_close r sock + 1),
                 once_error := (once_error r)(sock := once_error r sock + 1)\<rparr>))
             \<lparr>trace := trace r @ [Emitted Ev_locked (dbName i), Granted (Some n) sock]\<rparr>"
        have u: "acquire_finish (Some n) sock i ?ra =
            (i\<lparr>locked := True, activeSocket := Some sock, lastAccess := now r\<rparr>, ?r2)"
          using False by (simp add: acquire_finish_def lock_def emit_def)
        have f2: "fulfilled_tasks ?r2 = fulfilled_tasks ?r0" by (simp add: fulfilled_tasks_def emit_def)
        have g2: "waits_granted (trace ?r2) = waits_granted (trace r) @ [n]"
          "waits_queued (trace ?r2) = waits_queued (trace r)"
          by (simp_all add: waits_granted_append waits_queued_append)
        have f': "fulfilled_tasks r = n # fulfilled_tasks ?r0" using f Fulfilled by simp
        have s1: "sorted_wrt (<) (waits_granted (trace ?r2) @ fulfilled_tasks ?r2 @ map qid (queue i))"
          unfolding g2 f2 using old(1) f' by simp
        have s2: "\<forall>m \<in> set (waits_granted (trace ?r2) @ fulfilled_tasks ?r2 @ map qid (queue i)). m < fresh r"
          unfolding g2 f2 using old(2) f' by auto
        have t2: "tasks_ok ?r2" using t0 by (simp add: tasks_ok_def emit_def)
        show ?thesis unfolding ua u fifo_inv_alt
          using q t2 s1 s2 old(3,4) g2(2) by (simp add: emit_def)
      qed
    qed
  qed
qed

lemma step_fifo:
  assumes "fifo_inv s"
  shows "fifo_inv (step ev s)"
proof (cases s)
  case (Pair i r)
  then have a: "fifo_inv (i, r)" using assms by simp
  show ?thesis
  proof (cases ev)
    case (Acquire sock timeout)
    then show ?thesis using Pair acquire_enter_fifo [OF a] by simp
  next
    case Microtask
    show ?thesis
    proof (cases "microtasks r")
      case Nil
      then show ?thesis using Pair Microtask a by simp
    next
      case (Cons n rest)
      then show ?thesis using Pair Microtask microtask_fifo [OF a Cons] by simp
    qed
  next
    case (TimerFires n)
    show ?thesis
    proof (cases "timers r n")
      case None
      then show ?thesis using Pair TimerFires a by simp
    next
      case (Some d)
      then have "timers r n \<noteq> None" by simp
      from timer_fifo [OF a this] show ?thesis using Pair TimerFires Some a by simp
    qed
  next
    case (SocketEmits sock e)
    have c: "fifo_inv (i, r\<lparr>once_close := (once_close r)(sock := 0)\<rparr>)"
      using a by (simp add: fifo_inv_alt tasks_ok_def fulfilled_tasks_def)
    have d: "fifo_inv (i, r\<lparr>once_error := (once_error r)(sock := 0)\<rparr>)"
      using a by (simp add: fifo_inv_alt tasks_ok_def fulfilled_tasks_def)
    show ?thesis
      using Pair SocketEmits unlocks_fifo [OF c] unlocks_fifo [OF d] by (cases e) simp_all
  next
    case (Advance d)
    then show ?thesis using Pair a by (simp add: fifo_inv_alt tasks_ok_def fulfilled_tasks_def)
  qed
qed

lemma run_fifo: "fifo_inv s \<Longrightarrow> fifo_inv (run evs s)"
proof (induction evs arbitrary: s)
  case Nil
  then show ?case by (simp add: run_def)
next
  case (Cons ev evs)
  have "run (ev # evs) s = run evs (step ev s)" by (simp add: run_def)
  then show ?case using Cons.IH [OF step_fifo [OF Cons.prems, of ev]] by simp
qed

lemma initial_fifo: "fifo_inv (ManagedInstance name dir mem runtime0, runtime0)"
  by (simp add: fifo_inv_alt tasks_ok_def fulfilled_tasks_def ManagedInstance_def runtime0_def)


lemma unlock_head:
  assumes "queue i = item # rest"
  shows "queue (fst (unlock i r)) = rest
       \<and> snd (unlock i r) = invoke (resolve item) This (emit Ev_unlocked (dbName i) r)
       \<and> \<not> locked (fst (unlock i r)) \<and> activeSocket (fst (unlock i r)) = None"
  using assms by (simp add: unlock_def Let_def)

lemma unlock_head_only:
  assumes "queue i = item # rest" "resolve item = ResolveWrapper n"
  shows "(\<forall>m. m \<noteq> n \<longrightarrow> promises (snd (unlock i r)) m = promises r m)
       \<and> (promises r n = Pending \<longrightarrow> promises (snd (unlock i r)) n = Fulfilled
            \<and> timers (snd (unlock i r)) n = None)"
  using assms by (simp add: unlock_def Let_def invoke_def settle_promises clearTimeout_def emit_def)

lemma acquire_enter_tail:
  assumes "locked i"
  shows "queue (fst (acquire_enter sock timeout i r))
           = queue i @ [\<lparr>resolve = ResolveWrapper (fresh r), reject = PromiseReject (fresh r)\<rparr>]
       \<and> trace (snd (acquire_enter sock timeout i r)) = trace r @ [Queued (fresh r) sock]
       \<and> fresh (snd (acquire_enter sock timeout i r)) = fresh r + 1"
  using assms by (simp add: acquire_enter_def waitForFree_def await_promise_def Let_def)

lemma unlock_head_promotes:
  assumes "queue i = item # rest" "resolve item = ResolveWrapper n" "promises r n = Pending"
  shows "promises (snd (unlock i r)) n = Fulfilled \<and> timers (snd (unlock i r)) n = None
       \<and> (\<forall>s. awaiting r n = Some s \<longrightarrow>
             microtasks (snd (unlock i r)) = microtasks r @ [n]
           \<and> awaiting (snd (unlock i r)) n = Some s)"
  using assms
  by (simp add: unlock_def Let_def invoke_def settle_def clearTimeout_def emit_def)

lemma settle_pending: "promises (settle n st r) m = Pending \<Longrightarrow> promises r m = Pending"
  by (simp add: settle_def split: if_splits)

lemma invoke_pending: "promises (invoke f a r) m = Pending \<Longrightarrow> promises r m = Pending"
  by (auto simp add: invoke_def dest: settle_pending split: fn.splits)

lemma waits_awaited_mono:
  assumes "waits_awaited r" "fresh r' = fresh r"
    "\<And>n. promises r' n = Pending \<Longrightarrow> promises r n = Pending \<and> awaiting r' n = awaiting r n"
  shows "waits_awaited r'"
  using assms unfolding waits_awaited_def by metis

lemma unlock_awaited: "waits_awaited r \<Longrightarrow> waits_awaited (snd (unlock i r))"
proof (rule waits_awaited_mono [of r])
  show "fresh (snd (unlock i r)) = fresh r"
    by (simp add: unlock_def Let_def split: list.splits)
  fix n assume "promises (snd (unlock i r)) n = Pending"
  then show "promises r n = Pending \<and> awaiting (snd (unlock i r)) n = awaiting r n"
    by (auto simp add: unlock_def Let_def dest: invoke_pending split: list.splits)
qed

lemma unlocks_awaited: "waits_awaited (snd s) \<Longrightarrow> waits_awaited (snd ((unlock_state ^^ k) s))"
proof (induction k)
  case 0
  then show ?case by simp
next
  case (Suc k)
  let ?s = "(unlock_state ^^ k) s"
  have st: "(unlock_state ^^ Suc k) s = unlock (fst ?s) (snd ?s)"
    using unlock_state_def [of ?s] by simp
  show ?case unfolding st using unlock_awaited [OF Suc.IH [OF Suc.prems]] .
qed

lemma timeout_callback_awaited:
  "waits_awaited r \<Longrightarrow> waits_awaited (snd (timeout_callback n i (clearTimeout n r)))"
proof (rule waits_awaited_mono [of r])
  show "fresh (snd (timeout_callback n i (clearTimeout n r))) = fresh r"
    by (simp add: timeout_callback_def Let_def)
  fix m assume "promises (snd (timeout_callback n i (clearTimeout n r))) m = Pending"
  then show "promises r m = Pending \<and> awaiting (snd (timeout_callback n i (clearTimeout n r))) m = awaiting r m"
    by (auto simp add: timeout_callback_def Let_def dest: invoke_pending)
qed

lemma acquire_finish_awaited:
  "waits_awaited r \<Longrightarrow> waits_awaited (snd (acquire_finish via sock i r))"
  by (simp add: acquire_finish_def lock_def waits_awaited_def emit_def)

lemma acquire_enter_awaited:
  "waits_awaited r \<Longrightarrow> waits_awaited (snd (acquire_enter sock timeout i r))"
proof (cases "locked i")
  case True
  assume "waits_awaited r"
  then show ?thesis using True
    by (auto simp add: acquire_enter_def waitForFree_def await_promise_def Let_def waits_awaited_def
        less_Suc_eq)
next
  case False
  assume "waits_awaited r"
  then show ?thesis using False acquire_finish_awaited [of r None sock i]
    by (simp add: acquire_enter_def)
qed

lemma acquire_resume_awaited:
  assumes "waits_awaited r"
  shows "waits_awaited (snd (acquire_resume n i (r\<lparr>microtasks := rest\<rparr>)))"
proof -
  let ?r = "r\<lparr>microtasks := rest\<rparr>"
  have w: "waits_awaited ?r" using assms by (simp add: waits_awaited_def)
  show ?thesis
  proof (cases "awaiting ?r n")
    case None
    then show ?thesis using w by (simp add: acquire_resume_def)
  next
    case (Some sock)
    show ?thesis
    proof (cases "promises ?r n")
      case Pending
      then show ?thesis using w Some by (simp add: acquire_resume_def)
    next
      case Fulfilled
      have "waits_awaited (?r\<lparr>awaiting := (awaiting ?r)(n := None)\<rparr>)"
        using w Fulfilled by (auto simp add: waits_awaited_def)
      then show ?thesis using Some Fulfilled
          acquire_finish_awaited [of "?r\<lparr>awaiting := (awaiting ?r)(n := None)\<rparr>" "Some n" sock i]
        by (simp add: acquire_resume_def)
    next
      case (Rejected a)
      then show ?thesis using w Some by (auto simp add: acquire_resume_def waits_awaited_def)
    qed
  qed
qed

lemma step_awaited: "waits_awaited (snd s) \<Longrightarrow> waits_awaited (snd (step ev s))"
proof (cases s)
  case (Pair i r)
  assume "waits_awaited (snd s)"
  then have w: "waits_awaited r" using Pair by simp
  show ?thesis
  proof (cases ev)
    case (Acquire sock timeout)
    then show ?thesis using Pair acquire_enter_awaited [OF w] by simp
  next
    case Microtask
    then show ?thesis using Pair w acquire_resume_awaited [OF w]
      by (simp split: list.splits)
  next
    case (TimerFires n)
    then show ?thesis using Pair w timeout_callback_awaited [OF w]
      by (simp split: option.splits)
  next
    case (SocketEmits sock e)
    have c: "waits_awaited (r\<lparr>once_close := (once_close r)(sock := 0)\<rparr>)"
      "waits_awaited (r\<lparr>once_error := (once_error r)(sock := 0)\<rparr>)"
      using w by (simp_all add: waits_awaited_def)
    show ?thesis
    proof (cases e)
      case OnClose
      then show ?thesis
        using Pair SocketEmits c(1)
          unlocks_awaited [of "(i, r\<lparr>once_close := (once_close r)(sock := 0)\<rparr>)" "once_close r sock"]
        by simp
    next
      case OnError
      then show ?thesis
        using Pair SocketEmits c(2)
          unlocks_awaited [of "(i, r\<lparr>once_error := (once_error r)(sock := 0)\<rparr>)" "once_error r sock"]
        by simp
    qed
  next
    case (Advance d)
    then show ?thesis using Pair w by (simp add: waits_awaited_def)
  qed
qed

lemma run_awaited: "waits_awaited (snd s) \<Longrightarrow> waits_awaited (snd (run evs s))"
proof (induction evs arbitrary: s)
  case Nil
  then show ?case by (simp add: run_def)
next
  case (Cons ev evs)
  have "run (ev # evs) s = run evs (step ev s)" by (simp add: run_def)
  then show ?case using Cons.IH [OF step_awaited [OF Cons.prems]] by simp
qed

lemma initial_awaited: "waits_awaited runtime0"
  by (simp add: waits_awaited_def runtime0_def)

lemma head_promoted_in_run:
  assumes "queue (fst (run evs (ManagedInstance name dir mem runtime0, runtime0))) = item # rest"
    "promises (snd (run evs (ManagedInstance name dir mem runtime0, runtime0))) (qid item) = Pending"
  shows "resolve item = ResolveWrapper (qid item)
     \<and> promises (snd (unlock (fst (run evs (ManagedInstance name dir mem runtime0, runtime0))) (snd (run evs (ManagedInstance name dir mem runtime0, runtime0))))) (qid item) = Fulfilled
     \<and> timers (snd (unlock (fst (run evs (ManagedInstance name dir mem runtime0, runtime0))) (snd (run evs (ManagedInstance name dir mem runtime0, runtime0))))) (qid item) = None
     \<and> microtasks (snd (unlock (fst (run evs (ManagedInstance name dir mem runtime0, runtime0))) (snd (run evs (ManagedInstance name dir mem runtime0, runtime0)))))
         = microtasks (snd (run evs (ManagedInstance name dir mem runtime0, runtime0))) @ [qid item]"
proof -
  let ?s = "run evs (ManagedInstance name dir mem runtime0, runtime0)"
  have inv: "fifo_inv ?s" using run_fifo [OF initial_fifo] .
  have w: "waits_awaited (snd ?s)" using run_awaited [of "(ManagedInstance name dir mem runtime0, runtime0)" evs] initial_awaited by simp
  have r: "resolve item = ResolveWrapper (qid item)" using inv assms(1) by (simp add: fifo_inv_def)
  have "qid item \<in> set (promotion_order ?s)" using assms(1) by (simp add: promotion_order_def)
  then have "qid item < fresh (snd ?s)" using inv by (simp add: fifo_inv_def)
  then obtain sock where a: "awaiting (snd ?s) (qid item) = Some sock"
    using w assms(2) by (auto simp add: waits_awaited_def)
  show ?thesis
    using unlock_head_promotes [OF assms(1) r assms(2)] a r by simp
qed

lemma barge_after_unlock:
  "locked (fst (acquire_enter sock timeout (fst (unlock i r)) (snd (unlock i r))))
   \<and> activeSocket (fst (acquire_enter sock timeout (fst (unlock i r)) (snd (unlock i r)))) = Some sock
   \<and> trace (snd (acquire_enter sock timeout (fst (unlock i r)) (snd (unlock i r))))
       = trace (snd (unlock i r)) @ [Emitted Ev_locked (dbName i), Granted None sock]"
proof -
  obtain i1 r1 where u: "unlock i r = (i1, r1)" by fastforce
  have f: "\<not> locked i1" "dbName i1 = dbName i" using unlock_effect [of i r] u by simp_all
  show ?thesis unfolding u using f
    by (simp add: acquire_enter_def acquire_finish_def lock_def emit_def)
qed

lemma promoted_finds_locked:
  assumes "locked i" "awaiting r n = Some s" "promises r n = Fulfilled"
  shows "acquire_resume n i r
     = (i, r\<lparr>awaiting := (awaiting r)(n := None),
              trace := trace r @ [Refused (Some n) s (Err AlreadyLocked)]\<rparr>)"
  using assms by (simp add: acquire_resume_def acquire_finish_def lock_def)

lemma waiting_2_eval:
  "queue (fst waiting_2) = [\<lparr>resolve = ResolveWrapper 0, reject = PromiseReject 0\<rparr>]"
  "promises (snd waiting_2) 0 = Pending" "awaiting (snd waiting_2) 0 = Some 2"
  "locked (fst waiting_2)" "microtasks (snd waiting_2) = []" "fresh (snd waiting_2) = 1"
  by (simp_all add: waiting_2_def run_simps)

lemma barged_3_eval:
  "locked (fst barged_3)" "awaiting (snd barged_3) 0 = Some 2" "promises (snd barged_3) 0 = Fulfilled"
  by (simp_all add: barged_3_def run_simps)

text \<open>
  C2, as amended. A release on an instance with a non-empty queue takes exactly the head entry
  off the queue and calls its \<^verbatim>\<open>resolve\<close>; no other waiter's promise is touched, and if the wait
  of the head entry is still pending, that waiter is promoted: its promise is fulfilled, its
  timer cleared and the continuation of its \<^verbatim>\<open>acquire\<close> queued as a microtask, in any state
  where an \<^verbatim>\<open>acquire\<close> is suspended on the wait, and so in every state that a run from a new
  instance reaches. (A head entry whose wait has timed out is the subject of C6.)
  \<^verbatim>\<open>acquire\<close> on a locked instance enqueues at the tail, under the next promise number. In
  every run from a new instance the waits begin in
  ascending promise number and are granted in ascending promise number: wherever the trace is
  cut, each wait enqueued before the cut has a smaller number than each one enqueued after it,
  and likewise for the waits granted, so that of two waits that both end with the lock the one
  enqueued first is granted first. The release leaves the instance free, without a holder, until
  the continuation of the promoted waiter calls \<^verbatim>\<open>lock\<close>: an \<^verbatim>\<open>acquire\<close> that reaches the
  instance after the release finds it free and takes the lock, and a promoted waiter whose
  continuation finds the instance locked fails with the already-locked error.
\<close>

theorem fifo_promotion:
  "(queue i = item # rest \<longrightarrow>
        queue (fst (unlock i r)) = rest
      \<and> snd (unlock i r) = invoke (resolve item) This (emit Ev_unlocked (dbName i) r)
      \<and> \<not> locked (fst (unlock i r)) \<and> activeSocket (fst (unlock i r)) = None)
   \<and> (queue i = item # rest \<and> resolve item = ResolveWrapper n \<longrightarrow>
        (\<forall>m. m \<noteq> n \<longrightarrow> promises (snd (unlock i r)) m = promises r m)
      \<and> (promises r n = Pending \<longrightarrow>
            promises (snd (unlock i r)) n = Fulfilled \<and> timers (snd (unlock i r)) n = None
          \<and> (\<forall>s. awaiting r n = Some s \<longrightarrow>
                microtasks (snd (unlock i r)) = microtasks r @ [n]
              \<and> awaiting (snd (unlock i r)) n = Some s)))
   \<and> (locked i \<longrightarrow>
        queue (fst (acquire_enter sock timeout i r))
           = queue i @ [\<lparr>resolve = ResolveWrapper (fresh r), reject = PromiseReject (fresh r)\<rparr>]
      \<and> trace (snd (acquire_enter sock timeout i r)) = trace r @ [Queued (fresh r) sock]
      \<and> fresh (snd (acquire_enter sock timeout i r)) = fresh r + 1)
   \<and> sorted_wrt (<) (waits_queued (trace (snd (run evs (ManagedInstance name dir mem runtime0, runtime0)))))
   \<and> sorted_wrt (<) (waits_granted (trace (snd (run evs (ManagedInstance name dir mem runtime0, runtime0)))))
   \<and> (\<forall>xs ys. trace (snd (run evs (ManagedInstance name dir mem runtime0, runtime0))) = xs @ ys \<longrightarrow>
         (\<forall>a \<in> set (waits_queued xs). \<forall>b \<in> set (waits_queued ys). a < b)
       \<and> (\<forall>a \<in> set (waits_granted xs). \<forall>b \<in> set (waits_granted ys). a < b))
   \<and> (\<forall>e es. queue (fst (run evs (ManagedInstance name dir mem runtime0, runtime0))) = e # es
          \<and> promises (snd (run evs (ManagedInstance name dir mem runtime0, runtime0))) (qid e) = Pending \<longrightarrow>
        resolve e = ResolveWrapper (qid e)
      \<and> promises (snd (unlock (fst (run evs (ManagedInstance name dir mem runtime0, runtime0)))
            (snd (run evs (ManagedInstance name dir mem runtime0, runtime0))))) (qid e) = Fulfilled
      \<and> timers (snd (unlock (fst (run evs (ManagedInstance name dir mem runtime0, runtime0)))
            (snd (run evs (ManagedInstance name dir mem runtime0, runtime0))))) (qid e) = None
      \<and> microtasks (snd (unlock (fst (run evs (ManagedInstance name dir mem runtime0, runtime0)))
            (snd (run evs (ManagedInstance name dir mem runtime0, runtime0)))))
          = microtasks (snd (run evs (ManagedInstance name dir mem runtime0, runtime0))) @ [qid e])
   \<and> locked (fst (acquire_enter sock timeout (fst (unlock i r)) (snd (unlock i r))))
   \<and> activeSocket (fst (acquire_enter sock timeout (fst (unlock i r)) (snd (unlock i r)))) = Some sock
   \<and> trace (snd (acquire_enter sock timeout (fst (unlock i r)) (snd (unlock i r))))
       = trace (snd (unlock i r)) @ [Emitted Ev_locked (dbName i), Granted None sock]
   \<and> (locked i \<and> awaiting r n = Some s \<and> promises r n = Fulfilled \<longrightarrow>
        acquire_resume n i r
          = (i, r\<lparr>awaiting := (awaiting r)(n := None),
                   trace := trace r @ [Refused (Some n) s (Err AlreadyLocked)]\<rparr>))"
proof -
  let ?s = "run evs (ManagedInstance name dir mem runtime0, runtime0)"
  have inv: "fifo_inv ?s" using run_fifo [OF initial_fifo] .
  have "sorted_wrt (<) (promotion_order ?s)" using inv by (simp add: fifo_inv_def)
  then have g: "sorted_wrt (<) (waits_granted (trace (snd ?s)))"
    by (simp add: promotion_order_def sorted_wrt_append)
  have q: "sorted_wrt (<) (waits_queued (trace (snd ?s)))" using inv by (simp add: fifo_inv_def)
  have sp: "\<forall>xs ys. trace (snd ?s) = xs @ ys \<longrightarrow>
         (\<forall>a \<in> set (waits_queued xs). \<forall>b \<in> set (waits_queued ys). a < b)
       \<and> (\<forall>a \<in> set (waits_granted xs). \<forall>b \<in> set (waits_granted ys). a < b)"
  proof (intro allI impI)
    fix xs ys assume e: "trace (snd ?s) = xs @ ys"
    have "sorted_wrt (<) (waits_queued xs @ waits_queued ys)"
      using q unfolding e by (simp add: waits_queued_append)
    moreover have "sorted_wrt (<) (waits_granted xs @ waits_granted ys)"
      using g unfolding e by (simp add: waits_granted_append)
    ultimately show "(\<forall>a \<in> set (waits_queued xs). \<forall>b \<in> set (waits_queued ys). a < b)
       \<and> (\<forall>a \<in> set (waits_granted xs). \<forall>b \<in> set (waits_granted ys). a < b)"
      by (simp add: sorted_wrt_append)
  qed
  have c1: "queue i = item # rest \<longrightarrow>
        queue (fst (unlock i r)) = rest
      \<and> snd (unlock i r) = invoke (resolve item) This (emit Ev_unlocked (dbName i) r)
      \<and> \<not> locked (fst (unlock i r)) \<and> activeSocket (fst (unlock i r)) = None"
    using unlock_head [of i item rest r] by blast
  have c2: "queue i = item # rest \<and> resolve item = ResolveWrapper n \<longrightarrow>
        (\<forall>m. m \<noteq> n \<longrightarrow> promises (snd (unlock i r)) m = promises r m)
      \<and> (promises r n = Pending \<longrightarrow>
            promises (snd (unlock i r)) n = Fulfilled \<and> timers (snd (unlock i r)) n = None
          \<and> (\<forall>s. awaiting r n = Some s \<longrightarrow>
                microtasks (snd (unlock i r)) = microtasks r @ [n]
              \<and> awaiting (snd (unlock i r)) n = Some s))"
    using unlock_head_only [of i item rest n r] unlock_head_promotes [of i item rest n r] by blast
  have c3: "locked i \<longrightarrow>
        queue (fst (acquire_enter sock timeout i r))
           = queue i @ [\<lparr>resolve = ResolveWrapper (fresh r), reject = PromiseReject (fresh r)\<rparr>]
      \<and> trace (snd (acquire_enter sock timeout i r)) = trace r @ [Queued (fresh r) sock]
      \<and> fresh (snd (acquire_enter sock timeout i r)) = fresh r + 1"
    using acquire_enter_tail [of i sock timeout r] by blast
  have c5: "locked i \<and> awaiting r n = Some s \<and> promises r n = Fulfilled \<longrightarrow>
        acquire_resume n i r
          = (i, r\<lparr>awaiting := (awaiting r)(n := None),
                   trace := trace r @ [Refused (Some n) s (Err AlreadyLocked)]\<rparr>)"
    using promoted_finds_locked [of i r n s] by blast
  note c4 = barge_after_unlock [of sock timeout i r]
  have c6: "\<forall>e es. queue (fst ?s) = e # es \<and> promises (snd ?s) (qid e) = Pending \<longrightarrow>
        resolve e = ResolveWrapper (qid e)
      \<and> promises (snd (unlock (fst ?s) (snd ?s))) (qid e) = Fulfilled
      \<and> timers (snd (unlock (fst ?s) (snd ?s))) (qid e) = None
      \<and> microtasks (snd (unlock (fst ?s) (snd ?s))) = microtasks (snd ?s) @ [qid e]"
    using head_promoted_in_run [of evs name dir mem] by blast
  show ?thesis
    by (intro conjI) (rule c1, rule c2, rule c3, rule q, rule g, rule sp, rule c6,
        rule c4 [THEN conjunct1], rule c4 [THEN conjunct2, THEN conjunct1],
        rule c4 [THEN conjunct2, THEN conjunct2], rule c5)
qed

theorem fifo_promotion_witness:
  "queue (fst (unlock (fst waiting_2) (snd waiting_2))) = []
   \<and> promises (snd (unlock (fst waiting_2) (snd waiting_2))) 0 = Fulfilled
   \<and> microtasks (snd (unlock (fst waiting_2) (snd waiting_2))) = [0]
   \<and> queue (fst (acquire_enter 3 5000 (fst waiting_2) (snd waiting_2)))
       = [\<lparr>resolve = ResolveWrapper 0, reject = PromiseReject 0\<rparr>,
          \<lparr>resolve = ResolveWrapper 1, reject = PromiseReject 1\<rparr>]
   \<and> waits_queued (trace (snd (run [Acquire 1 5000, Acquire 2 5000, Acquire 3 5000,
        SocketEmits 1 OnClose, Microtask, SocketEmits 2 OnClose, Microtask] (inst_a, runtime0)))) = [0, 1]
   \<and> waits_granted (trace (snd (run [Acquire 1 5000, Acquire 2 5000, Acquire 3 5000,
        SocketEmits 1 OnClose, Microtask, SocketEmits 2 OnClose, Microtask] (inst_a, runtime0)))) = [0, 1]
   \<and> sorted_wrt (<) (waits_granted (trace (snd (run [Acquire 1 5000, Acquire 2 5000, Acquire 3 5000,
        SocketEmits 1 OnClose, Microtask, SocketEmits 2 OnClose, Microtask] (inst_a, runtime0)))))
   \<and> activeSocket (fst (acquire_enter 3 5000 (fst (unlock (fst waiting_2) (snd waiting_2)))
        (snd (unlock (fst waiting_2) (snd waiting_2))))) = Some 3
   \<and> fst (acquire_resume 0 (fst barged_3) (snd barged_3)) = fst barged_3
   \<and> trace (snd (acquire_resume 0 (fst barged_3) (snd barged_3)))
       = trace (snd barged_3) @ [Refused (Some 0) 2 (Err AlreadyLocked)]"
proof -
  let ?evs = "[Acquire 1 5000, Acquire 2 5000, Acquire 3 5000,
        SocketEmits 1 OnClose, Microtask, SocketEmits 2 OnClose, Microtask]"
  let ?item = "\<lparr>resolve = ResolveWrapper 0, reject = PromiseReject 0\<rparr>"
  have h1: "queue (fst waiting_2) = ?item # []" using waiting_2_eval(1) by simp
  have h2: "queue (fst waiting_2) = ?item # [] \<and> resolve ?item = ResolveWrapper 0"
    using h1 by simp
  note t = fifo_promotion [where i = "fst waiting_2" and item = ?item and rest = "[]"
      and r = "snd waiting_2" and n = 0 and sock = 3 and timeout = 5000 and evs = ?evs
      and name = "''a''" and dir = None and mem = True and s = 2]
  note t' = fifo_promotion [where i = "fst barged_3" and item = ?item and rest = "[]"
      and r = "snd barged_3" and n = 0 and sock = 3 and timeout = 5000 and evs = ?evs
      and name = "''a''" and dir = None and mem = True and s = 2]
  have a: "queue (fst (unlock (fst waiting_2) (snd waiting_2))) = []" using t h1 by blast
  have b: "promises (snd (unlock (fst waiting_2) (snd waiting_2))) 0 = Fulfilled"
    using t h2 waiting_2_eval(2) by blast
  have w2: "run [Acquire 1 5000, Acquire 2 5000] (ManagedInstance ''a'' None True runtime0, runtime0)
      = waiting_2"
    by (simp add: waiting_2_def inst_a_def)
  note t2 = fifo_promotion [where i = "fst waiting_2" and item = ?item and rest = "[]"
      and r = "snd waiting_2" and n = 0 and sock = 3 and timeout = 5000
      and evs = "[Acquire 1 5000, Acquire 2 5000]"
      and name = "''a''" and dir = None and mem = True and s = 2, unfolded w2]
  have h3: "queue (fst waiting_2) = ?item # [] \<and> promises (snd waiting_2) (qid ?item) = Pending"
    using h1 waiting_2_eval(2) by (simp add: qid_def)
  have b2: "microtasks (snd (unlock (fst waiting_2) (snd waiting_2)))
      = microtasks (snd waiting_2) @ [qid ?item]"
    using t2 h3 by blast
  have c: "queue (fst (acquire_enter 3 5000 (fst waiting_2) (snd waiting_2)))
       = queue (fst waiting_2) @ [\<lparr>resolve = ResolveWrapper (fresh (snd waiting_2)),
            reject = PromiseReject (fresh (snd waiting_2))\<rparr>]"
    using t waiting_2_eval(4) by blast
  have d: "sorted_wrt (<) (waits_granted (trace (snd (run ?evs (inst_a, runtime0)))))"
    using t unfolding inst_a_def by blast
  have tr: "trace (snd (run ?evs (inst_a, runtime0)))
      = [Emitted Ev_locked ''a'', Granted None 1, Queued 0 2, Queued 1 3, Emitted Ev_unlocked ''a'',
         Emitted Ev_locked ''a'', Granted (Some 0) 2, Emitted Ev_unlocked ''a'',
         Emitted Ev_locked ''a'', Granted (Some 1) 3]"
    by (simp add: run_simps)
  have e: "waits_granted (trace (snd (run ?evs (inst_a, runtime0)))) = [0, 1]"
    "waits_queued (trace (snd (run ?evs (inst_a, runtime0)))) = [0, 1]"
    unfolding tr by simp_all
  have f: "activeSocket (fst (acquire_enter 3 5000 (fst (unlock (fst waiting_2) (snd waiting_2)))
        (snd (unlock (fst waiting_2) (snd waiting_2))))) = Some 3"
    using t by blast
  have hb: "locked (fst barged_3) \<and> awaiting (snd barged_3) 0 = Some 2
      \<and> promises (snd barged_3) 0 = Fulfilled"
    using barged_3_eval by simp
  have g: "acquire_resume 0 (fst barged_3) (snd barged_3)
      = (fst barged_3, (snd barged_3)\<lparr>awaiting := (awaiting (snd barged_3))(0 := None),
           trace := trace (snd barged_3) @ [Refused (Some 0) 2 (Err AlreadyLocked)]\<rparr>)"
    using t' hb by blast
  have g1: "fst (acquire_resume 0 (fst barged_3) (snd barged_3)) = fst barged_3"
    "trace (snd (acquire_resume 0 (fst barged_3) (snd barged_3)))
       = trace (snd barged_3) @ [Refused (Some 0) 2 (Err AlreadyLocked)]"
    unfolding g by simp_all
  have b3: "microtasks (snd (unlock (fst waiting_2) (snd waiting_2))) = [0]"
    unfolding b2 waiting_2_eval(5) by (simp add: qid_def)
  have c': "queue (fst (acquire_enter 3 5000 (fst waiting_2) (snd waiting_2)))
       = [\<lparr>resolve = ResolveWrapper 0, reject = PromiseReject 0\<rparr>,
          \<lparr>resolve = ResolveWrapper 1, reject = PromiseReject 1\<rparr>]"
    unfolding c waiting_2_eval(1) waiting_2_eval(6) by simp
  show ?thesis using a b b3 c' e d f g1 by blast
qed

text \<open>
  The claim as stated fails between the release and the continuation of the promoted waiter:
  the instance is free and the queue empty while the promoted wait 0 is still a microtask; an
  \<^verbatim>\<open>acquire\<close> of socket 3 that reaches the instance then finds it free and takes the lock, and the
  promoted waiter's \<^verbatim>\<open>lock\<close> throws. This is the schedule of an \<^verbatim>\<open>acquire\<close> called from a
  listener of \<^verbatim>\<open>'instance-unlocked'\<close>, which the release emits before it promotes: the
  continuation of its \<^verbatim>\<open>await this.getOrCreate(dbName)\<close> is queued ahead of the continuation
  of the promoted waiter. It fails also where the head entry is the one of a wait that has timed
  out (wait 0 in \<open>stale_head\<close>, rejected as busy): the release takes that entry off the queue,
  settles no promise and queues no continuation, so that no waiter is promoted although wait 1
  is pending in the queue behind it.
\<close>

theorem free_window_counterexample:
  "locked (fst (run [Acquire 1 5000, Acquire 2 5000, SocketEmits 1 OnClose] (inst_a, runtime0))) = False
   \<and> queue (fst (run [Acquire 1 5000, Acquire 2 5000, SocketEmits 1 OnClose] (inst_a, runtime0))) = []
   \<and> microtasks (snd (run [Acquire 1 5000, Acquire 2 5000, SocketEmits 1 OnClose] (inst_a, runtime0))) = [0]
   \<and> trace (snd (run [Acquire 1 5000, Acquire 2 5000, SocketEmits 1 OnClose, Acquire 3 5000, Microtask]
        (inst_a, runtime0)))
      = [Emitted Ev_locked ''a'', Granted None 1, Queued 0 2, Emitted Ev_unlocked ''a'',
         Emitted Ev_locked ''a'', Granted None 3, Refused (Some 0) 2 (Err AlreadyLocked)]
   \<and> queue (fst stale_head)
      = [\<lparr>resolve = ResolveWrapper 0, reject = PromiseReject 0\<rparr>,
         \<lparr>resolve = ResolveWrapper 1, reject = PromiseReject 1\<rparr>]
   \<and> promises (snd stale_head) 0 = Rejected (Err Busy)
   \<and> promises (snd stale_head) 1 = Pending
   \<and> queue (fst (unlock (fst stale_head) (snd stale_head)))
      = [\<lparr>resolve = ResolveWrapper 1, reject = PromiseReject 1\<rparr>]
   \<and> promises (snd (unlock (fst stale_head) (snd stale_head))) 0 = Rejected (Err Busy)
   \<and> promises (snd (unlock (fst stale_head) (snd stale_head))) 1 = Pending
   \<and> microtasks (snd (unlock (fst stale_head) (snd stale_head))) = []
   \<and> locked (fst (unlock (fst stale_head) (snd stale_head))) = False"
  by (simp add: stale_head_def run_simps)

lemma timer_never_removes:
  "queue (fst (step (TimerFires n) (run evs (ManagedInstance name dir mem runtime0, runtime0))))
     = queue (fst (run evs (ManagedInstance name dir mem runtime0, runtime0)))"
proof -
  let ?s = "run evs (ManagedInstance name dir mem runtime0, runtime0)"
  obtain i r where s: "?s = (i, r)" by fastforce
  have "fifo_inv ?s" using run_fifo [OF initial_fifo] .
  then have q: "\<forall>item \<in> set (queue i). resolve item = ResolveWrapper (qid item)"
    using s by (simp add: fifo_inv_alt)
  have "fst (step (TimerFires n) (i, r)) = i"
    using timeout_callback_queue [OF q, of n "clearTimeout n r"] by (simp split: option.splits)
  then show ?thesis using s by simp
qed

text \<open>
  C6 on the code. Socket 2 waits behind socket 1 and times out: its \<^verbatim>\<open>acquire\<close> throws the
  busy error, but \<^verbatim>\<open>findIndex\<close> compares the queued wrapper with the executor's
  \<^verbatim>\<open>resolve\<close>, finds nothing, and the entry stays in the queue. When socket 3 then queues and
  socket 1 closes, the release is spent on the stale entry: the instance is free, socket 3 is
  still queued with its promise pending, and it times out as well. In no run from a new instance
  does the firing of a timer change the queue.
\<close>

theorem timeout_entry_lingers:
  "trace (snd (run [Acquire 1 5000, Acquire 2 5000, Advance 5000, TimerFires 0, Microtask]
        (inst_a, runtime0)))
      = [Emitted Ev_locked ''a'', Granted None 1, Queued 0 2, Refused (Some 0) 2 (Err Busy)]
   \<and> queue (fst (run [Acquire 1 5000, Acquire 2 5000, Advance 5000, TimerFires 0, Microtask]
        (inst_a, runtime0)))
      = [\<lparr>resolve = ResolveWrapper 0, reject = PromiseReject 0\<rparr>]
   \<and> queue (fst (run [Acquire 1 5000, Acquire 2 5000, Advance 5000, TimerFires 0, Microtask,
        Acquire 3 5000, SocketEmits 1 OnClose, Microtask] (inst_a, runtime0)))
      = [\<lparr>resolve = ResolveWrapper 1, reject = PromiseReject 1\<rparr>]
   \<and> locked (fst (run [Acquire 1 5000, Acquire 2 5000, Advance 5000, TimerFires 0, Microtask,
        Acquire 3 5000, SocketEmits 1 OnClose, Microtask] (inst_a, runtime0))) = False
   \<and> promises (snd (run [Acquire 1 5000, Acquire 2 5000, Advance 5000, TimerFires 0, Microtask,
        Acquire 3 5000, SocketEmits 1 OnClose, Microtask] (inst_a, runtime0))) 1 = Pending
   \<and> trace (snd (run [Acquire 1 5000, Acquire 2 5000, Advance 5000, TimerFires 0, Microtask,
        Acquire 3 5000, SocketEmits 1 OnClose, Microtask, Advance 5000, TimerFires 1, Microtask]
        (inst_a, runtime0)))
      = [Emitted Ev_locked ''a'', Granted None 1, Queued 0 2, Refused (Some 0) 2 (Err Busy),
         Queued 1 3, Emitted Ev_unlocked ''a'', Refused (Some 1) 3 (Err Busy)]
   \<and> queue (fst (step (TimerFires n) (run evs (ManagedInstance name dir mem runtime0, runtime0))))
      = queue (fst (run evs (ManagedInstance name dir mem runtime0, runtime0)))"
  using timer_never_removes [of n evs name dir mem] by (simp add: run_simps)

end
